theory Spec2Isabelle
  imports Main "HOL-Library.Word"
begin

unbundle bit_operations_syntax

section \<open>Constants (constants module)\<close>

text \<open>
  A \<open>Buffer\<close> is a list of bytes.  JavaScript numbers that only ever hold buffer
  indices are \<open>nat\<close>; numbers produced by the 32-bit bitwise operators are \<open>int\<close>,
  read off a \<open>32 word\<close> with \<open>sint\<close>.
\<close>

type_synonym byte = "8 word"

datatype wire_type = VARINT | I64 | LEN | I32

datatype token = TOKENS_TAG | TOKENS_LENGTH | TOKENS_PAYLOAD

definition DATA_TYPES :: "string list" where
  "DATA_TYPES =
     [''int32'', ''int64'', ''uint32'', ''uint64'', ''sint32'', ''sint64'', ''bool'', ''enum'',
      ''fixed64'', ''sfixed64'', ''double'', ''string'', ''bytes'', ''fixed32'', ''sfixed32'',
      ''float'']"

definition MASKS_MSB :: byte where
  "MASKS_MSB = 0x7F"

text \<open>The message templates of \<open>ERRORS\<close>, one constructor per template, holding the
  values the template interpolates.\<close>

datatype errors =
    MESSAGE_NOT_EXISTS string
  | MESSAGE_EMPTY_FIELD string
  | MESSAGE_MORE_FIELDS string nat
  | MESSAGE_NOT_REPEATED string string
  | ERRORS_TAG int int
  | ERRORS_PAYLOAD string

text \<open>What a call can throw: the package's own \<open>RepeatedFieldStreamError\<close>, the plain
  \<open>Error\<close> of a failed schema lookup, or the \<open>TypeError\<close> of reading a property of
  \<open>undefined\<close>.\<close>

datatype exn = RepeatedFieldStreamError errors | LookupError string | TypeError

section \<open>The varint primitive\<close>

text \<open>
  \<open>decodeVarint\<close>: the accumulator \<open>number\<close> goes through \<open>|\<close> and \<open><<\<close>, which work on
  32-bit integers and take the shift count modulo 32; the result is the signed reading.
\<close>

fun decodeVarint_loop :: "byte list \<Rightarrow> nat \<Rightarrow> 32 word \<Rightarrow> 32 word" where
  "decodeVarint_loop [] bytePosition number = number"
| "decodeVarint_loop (currentByte # rest) bytePosition number =
     (let sevenBits = currentByte AND MASKS_MSB;
          shift = bytePosition * 7
      in decodeVarint_loop rest (bytePosition + 1)
           (number OR push_bit (shift mod 32) (ucast sevenBits)))"

definition decodeVarint :: "byte list \<Rightarrow> int" where
  "decodeVarint varint = sint (decodeVarint_loop varint 0 0)"

text \<open>The base-128 little-endian value of a byte span, as the wire format defines it.\<close>

fun base128 :: "byte list \<Rightarrow> int" where
  "base128 [] = 0"
| "base128 (b # bs) = uint (b AND 0x7F) + 128 * base128 bs"

section \<open>Schema provider and value codec (protobufjs)\<close>

text \<open>
  The schema objects the package reads.  A \<open>protobuf.Field\<close> is a record of the four
  properties the code looks at; \<open>packed\<close> is \<open>None\<close> when the property is not a boolean.
  A \<open>protobuf.Root\<close> maps a name to the reflection object it resolves to: a message type
  with its \<open>fieldsArray\<close> and its \<open>decode\<close> (followed by \<open>toObject\<close>), or an enum.
  \<open>lookupType\<close> and \<open>lookupTypeOrEnum\<close> throw when nothing of the right kind is found.
  A decoding function returns \<open>Inl\<close> of the message of the error it throws.
\<close>

record pb_field =
  pb_name :: string
  pb_type :: string
  pb_repeated :: bool
  pb_packed :: "bool option"

datatype 'x reflection = PbType "pb_field list" "byte list \<Rightarrow> string + 'x" | PbEnum

type_synonym 'x root = "string \<Rightarrow> 'x reflection option"

definition lookupType ::
  "'x root \<Rightarrow> string \<Rightarrow> exn + (pb_field list \<times> (byte list \<Rightarrow> string + 'x))" where
  "lookupType root path =
     (case root path of
        Some (PbType fieldsArray dec) \<Rightarrow> Inr (fieldsArray, dec)
      | _ \<Rightarrow> Inl (LookupError path))"

definition lookupTypeOrEnum :: "'x root \<Rightarrow> string \<Rightarrow> exn + 'x reflection" where
  "lookupTypeOrEnum root path =
     (case root path of Some r \<Rightarrow> Inr r | None \<Rightarrow> Inl (LookupError path))"

text \<open>
  What the stream emits: the result of an external decoder (a \<open>Reader\<close> method or an
  embedded message's \<open>decode\<close>), the string \<open>payload.toString("utf8")\<close> (kept as the bytes
  it is decoded from, so \<open>Utf8String []\<close> is the empty string), the payload buffer
  itself, or the empty object that the decoder installed by \<open>cleanup\<close> returns.
\<close>

datatype 'x entry = Decoded 'x | Utf8String "byte list" | RawBuffer "byte list" | EmptyObject

type_synonym 'x reader = "string \<Rightarrow> byte list \<Rightarrow> string + 'x"

section \<open>Field metadata resolver\<close>

record 'x repeated_field =
  name :: string
  wireType :: wire_type
  isPacked :: bool
  decodeValue :: "byte list \<Rightarrow> string + 'x entry"

definition validateMessage :: "'x root \<Rightarrow> string \<Rightarrow> exn + unit" where
  "validateMessage root messageName =
     (case lookupType root messageName of
        Inl _ \<Rightarrow> Inl (RepeatedFieldStreamError (MESSAGE_NOT_EXISTS messageName))
      | Inr (fieldsArray, _) \<Rightarrow>
          (let fieldCount = length fieldsArray in
           case fieldsArray of
             [] \<Rightarrow> Inl (RepeatedFieldStreamError (MESSAGE_EMPTY_FIELD messageName))
           | repeatedField # _ \<Rightarrow>
               if fieldCount > 1
               then Inl (RepeatedFieldStreamError (MESSAGE_MORE_FIELDS messageName fieldCount))
               else if \<not> pb_repeated repeatedField
               then Inl (RepeatedFieldStreamError
                      (MESSAGE_NOT_REPEATED messageName (pb_name repeatedField)))
               else Inr ()))"

definition getWriteType :: "string \<Rightarrow> wire_type" where
  "getWriteType type =
     (if type \<in> {''int32'', ''int64'', ''uint32'', ''uint64'', ''sint32'', ''sint64'', ''bool'',
                  ''enum''} then VARINT
      else if type \<in> {''fixed64'', ''sfixed64'', ''double''} then I64
      else if type \<in> {''fixed32'', ''sfixed32'', ''float''} then I32
      else LEN)"

definition getResolvedType :: "string \<Rightarrow> 'x root \<Rightarrow> exn + string" where
  "getResolvedType type root =
     (if type \<notin> set DATA_TYPES
      then (case lookupTypeOrEnum root type of
              Inl e \<Rightarrow> Inl e
            | Inr PbEnum \<Rightarrow> Inr ''int32''
            | Inr (PbType _ _) \<Rightarrow> Inr type)
      else Inr type)"

definition scalarDecoder :: "'x reader \<Rightarrow> string \<Rightarrow> byte list \<Rightarrow> string + 'x entry" where
  "scalarDecoder reader resolvedType payload =
     (if resolvedType = ''int32'' then map_sum id Decoded (reader ''int32'' payload)
      else if resolvedType = ''int64'' then map_sum id Decoded (reader ''int64'' payload)
      else if resolvedType = ''uint32'' then map_sum id Decoded (reader ''uint32'' payload)
      else if resolvedType = ''uint64'' then map_sum id Decoded (reader ''uint64'' payload)
      else if resolvedType = ''sint32'' then map_sum id Decoded (reader ''sint32'' payload)
      else if resolvedType = ''sint64'' then map_sum id Decoded (reader ''sint64'' payload)
      else if resolvedType = ''bool'' then map_sum id Decoded (reader ''bool'' payload)
      else if resolvedType = ''fixed64'' then map_sum id Decoded (reader ''fixed64'' payload)
      else if resolvedType = ''sfixed64'' then map_sum id Decoded (reader ''sfixed64'' payload)
      else if resolvedType = ''double'' then map_sum id Decoded (reader ''double'' payload)
      else if resolvedType = ''fixed32'' then map_sum id Decoded (reader ''fixed32'' payload)
      else if resolvedType = ''sfixed32'' then map_sum id Decoded (reader ''sfixed32'' payload)
      else if resolvedType = ''float'' then map_sum id Decoded (reader ''float'' payload)
      else if resolvedType = ''string'' then Inr (Utf8String payload)
      else Inr (RawBuffer payload))"

definition getDecoder ::
  "'x reader \<Rightarrow> string \<Rightarrow> 'x root \<Rightarrow> exn + (byte list \<Rightarrow> string + 'x entry)" where
  "getDecoder reader type root =
     (if type \<notin> set DATA_TYPES
      then (case lookupType root type of
              Inl e \<Rightarrow> Inl e
            | Inr (_, dec) \<Rightarrow> Inr (\<lambda>payload. map_sum id Decoded (dec payload)))
      else Inr (scalarDecoder reader type))"

definition getRepeatedFieldDetails ::
  "'x reader \<Rightarrow> 'x root \<Rightarrow> string \<Rightarrow> exn + 'x repeated_field" where
  "getRepeatedFieldDetails reader root messageName =
     (case lookupType root messageName of
        Inl e \<Rightarrow> Inl e
      | Inr (fieldsArray, _) \<Rightarrow>
          (case fieldsArray of
             [] \<Rightarrow> Inl TypeError
           | repeatedField # _ \<Rightarrow>
               (case getResolvedType (pb_type repeatedField) root of
                  Inl e \<Rightarrow> Inl e
                | Inr resolvedType \<Rightarrow>
                    (let wt = getWriteType resolvedType;
                         isNumeric = (wt \<in> {VARINT, I64, I32});
                         packed = (isNumeric \<and> pb_packed repeatedField \<noteq> Some False)
                     in case getDecoder reader resolvedType root of
                          Inl e \<Rightarrow> Inl e
                        | Inr dec \<Rightarrow>
                            Inr \<lparr>name = pb_name repeatedField, wireType = wt,
                                 isPacked = packed, decodeValue = dec\<rparr>))))"

definition getPayloadSizeInBytes :: "wire_type \<Rightarrow> int" where
  "getPayloadSizeInBytes wt = (case wt of I32 \<Rightarrow> 4 | I64 \<Rightarrow> 8 | _ \<Rightarrow> 0)"

section \<open>The stream object\<close>

text \<open>
  The instance fields of \<open>RepeatedFieldStream\<close>, and \<open>pushed\<close>: the entries handed to
  \<open>this.push\<close> so far, oldest first.  \<open>currentPayloadSize\<close> can hold any result of
  \<open>decodeVarint\<close>, so it is an \<open>int\<close>.
\<close>

record 'x stream =
  repeatedField :: "'x repeated_field"
  currentPayloadSize :: int
  buffer :: "byte list"
  tag :: "int option"
  readOffset :: nat
  nextToken :: token
  pushed :: "'x entry list"

text \<open>A method either returns, leaving the object in a new state, or throws, leaving the
  object as it was at the \<open>throw\<close>.\<close>

type_synonym 'x outcome = "(exn \<times> 'x stream) + 'x stream"

definition RepeatedFieldStream ::
  "'x reader \<Rightarrow> 'x root \<Rightarrow> string \<Rightarrow> exn + 'x stream" where
  "RepeatedFieldStream reader root messageName =
     (case validateMessage root messageName of
        Inl e \<Rightarrow> Inl e
      | Inr _ \<Rightarrow>
          (case getRepeatedFieldDetails reader root messageName of
             Inl e \<Rightarrow> Inl e
           | Inr field \<Rightarrow>
               Inr \<lparr>repeatedField = field,
                    currentPayloadSize = getPayloadSizeInBytes (wireType field),
                    buffer = [], tag = None, readOffset = 0, nextToken = TOKENS_TAG, pushed = []\<rparr>))"

definition decodePayload :: "'x stream \<Rightarrow> byte list \<Rightarrow> exn + 'x entry" where
  "decodePayload s payload =
     (case decodeValue (repeatedField s) payload of
        Inl error \<Rightarrow> Inl (RepeatedFieldStreamError (ERRORS_PAYLOAD error))
      | Inr entry \<Rightarrow> Inr entry)"

definition cleanup :: "'x stream \<Rightarrow> 'x stream" where
  "cleanup s =
     s\<lparr>repeatedField :=
         \<lparr>name = [], wireType = VARINT, isPacked = False,
          decodeValue = (\<lambda>_. Inr EmptyObject)\<rparr>,
       buffer := []\<rparr>"

function detectVarint_loop :: "byte list \<Rightarrow> nat \<Rightarrow> bool \<Rightarrow> bool \<times> nat" where
  "detectVarint_loop buf offset bytesRemaining =
     (if bytesRemaining \<and> offset < length buf
      then (let byte = buf ! offset;
                offset' = offset + 1;
                continuationBit = drop_bit 7 byte
            in detectVarint_loop buf offset' (if continuationBit = 0 then False else bytesRemaining))
      else (bytesRemaining, offset))"
  by pat_completeness auto
termination
  by (relation "measure (\<lambda>(buf, offset, _). length buf - offset)") auto

definition detectVarint :: "'x stream \<Rightarrow> bool \<times> 'x stream" where
  "detectVarint s =
     (case detectVarint_loop (buffer s) (readOffset s) True of
        (bytesRemaining, offset) \<Rightarrow> (\<not> bytesRemaining, s\<lparr>readOffset := offset\<rparr>))"

function detectPayload_loop :: "byte list \<Rightarrow> int \<Rightarrow> nat \<Rightarrow> nat" where
  "detectPayload_loop buf payloadSize offset =
     (if int offset < payloadSize \<and> offset < length buf
      then detectPayload_loop buf payloadSize (offset + 1)
      else offset)"
  by pat_completeness auto
termination
  by (relation "measure (\<lambda>(buf, _, offset). length buf - offset)") auto

definition detectPayload :: "'x stream \<Rightarrow> bool \<times> 'x stream" where
  "detectPayload s =
     (let offset = detectPayload_loop (buffer s) (currentPayloadSize s) (readOffset s)
      in (int offset = currentPayloadSize s, s\<lparr>readOffset := offset\<rparr>))"

text \<open>
  \<open>decode\<close> is three \<open>if\<close> blocks run in order, each looking at \<open>nextToken\<close> as the block
  before left it.  \<open>!this.tag\<close> holds for \<open>null\<close> and for the number 0.
\<close>

definition decode_TAG :: "'x stream \<Rightarrow> 'x outcome" where
  "decode_TAG s =
     (if nextToken s = TOKENS_TAG
      then (case detectVarint s of
              (True, s1) \<Rightarrow>
                (let varint = take (readOffset s1) (buffer s1);
                     tag' = decodeVarint varint;
                     checked =
                       (case tag s1 of
                          None \<Rightarrow> Inr (s1\<lparr>tag := Some tag'\<rparr>)
                        | Some stored \<Rightarrow>
                            if stored = 0 then Inr (s1\<lparr>tag := Some tag'\<rparr>)
                            else if tag' \<noteq> stored
                            then Inl (RepeatedFieldStreamError (ERRORS_TAG stored tag'), s1)
                            else Inr s1)
                 in case checked of
                      Inl thrown \<Rightarrow> Inl thrown
                    | Inr s2 \<Rightarrow>
                        Inr (s2\<lparr>buffer := drop (readOffset s2) (buffer s2),
                                readOffset := 0,
                                nextToken :=
                                  (if wireType (repeatedField s2) = LEN
                                      \<or> isPacked (repeatedField s2)
                                   then TOKENS_LENGTH else TOKENS_PAYLOAD)\<rparr>))
            | (False, s1) \<Rightarrow> Inr s1)
      else Inr s)"

definition decode_LENGTH :: "'x stream \<Rightarrow> 'x stream" where
  "decode_LENGTH s =
     (if nextToken s = TOKENS_LENGTH
      then (case detectVarint s of
              (True, s1) \<Rightarrow>
                (let varint = take (readOffset s1) (buffer s1);
                     s2 = (if \<not> isPacked (repeatedField s1)
                           then s1\<lparr>currentPayloadSize := decodeVarint varint\<rparr>
                           else s1)
                 in s2\<lparr>buffer := drop (readOffset s2) (buffer s2),
                       readOffset := 0,
                       nextToken := TOKENS_PAYLOAD\<rparr>)
            | (False, s1) \<Rightarrow> s1)
      else s)"

definition decode_PAYLOAD :: "'x stream \<Rightarrow> 'x outcome" where
  "decode_PAYLOAD s =
     (if nextToken s = TOKENS_PAYLOAD
      then (case (if wireType (repeatedField s) = VARINT then detectVarint s
                  else detectPayload s) of
              (True, s1) \<Rightarrow>
                (let payload = take (readOffset s1) (buffer s1) in
                 case decodePayload s1 payload of
                   Inl error \<Rightarrow> Inl (error, s1)
                 | Inr entry \<Rightarrow>
                     (let s2 = s1\<lparr>pushed := pushed s1 @ [entry]\<rparr>;
                          s3 = s2\<lparr>buffer := drop (readOffset s2) (buffer s2),
                                  readOffset := 0\<rparr>
                      in if \<not> isPacked (repeatedField s3)
                         then Inr (s3\<lparr>currentPayloadSize := 0, nextToken := TOKENS_TAG\<rparr>)
                         else Inr (s3\<lparr>nextToken := TOKENS_PAYLOAD\<rparr>)))
            | (False, s1) \<Rightarrow> Inr s1)
      else Inr s)"

definition decode :: "'x stream \<Rightarrow> 'x outcome" where
  "decode s =
     (case decode_TAG s of
        Inl thrown \<Rightarrow> Inl thrown
      | Inr s1 \<Rightarrow> decode_PAYLOAD (decode_LENGTH s1))"

text \<open>
  The loop \<open>while (this.readOffset < this.buffer.length) this.decode()\<close> of \<open>_transform\<close>
  and \<open>_flush\<close>.  Nothing bounds its iterations, so it is a partial function: \<open>None\<close> is
  a loop that never ends.  A \<open>throw\<close> leaves the loop, and the method hands the error to
  its callback.
\<close>

partial_function (option) decode_while :: "'x stream \<Rightarrow> 'x outcome option" where
  "decode_while s =
     (if readOffset s < length (buffer s)
      then (case decode s of
              Inl thrown \<Rightarrow> Some (Inl thrown)
            | Inr s' \<Rightarrow> decode_while s')
      else Some (Inr s))"

declare decode_while.simps [code]

definition transform :: "'x stream \<Rightarrow> byte list \<Rightarrow> 'x outcome option" where
  "transform s chunk = decode_while (s\<lparr>buffer := buffer s @ chunk\<rparr>)"

definition final :: "'x stream \<Rightarrow> 'x stream" where
  "final s = cleanup s"

definition flush :: "'x stream \<Rightarrow> 'x outcome option" where
  "flush s = decode_while s"

text \<open>
  The stream machinery around the methods: it calls \<open>_transform\<close> once per written chunk,
  in order, and stops at the first error.
\<close>

fun write_chunks :: "'x stream \<Rightarrow> byte list list \<Rightarrow> 'x outcome option" where
  "write_chunks s [] = Some (Inr s)"
| "write_chunks s (chunk # chunks) =
     (case transform s chunk of
        None \<Rightarrow> None
      | Some (Inl thrown) \<Rightarrow> Some (Inl thrown)
      | Some (Inr s') \<Rightarrow> write_chunks s' chunks)"

section \<open>A reference value codec and schemas\<close>

text \<open>
  A model of the \<open>Reader\<close> methods of protobufjs, for running the stream on concrete
  inputs.  A fixed-width method reads 4 or 8 little-endian bytes from the start of the
  span and throws when the span is shorter; a varint method reads the span's leading
  varint of at most 10 bytes and throws when there is none.  Floating-point values are
  kept as their bit patterns.
\<close>

datatype scalar = Number int | Long int | Boolean bool | Float32 int | Float64 int

fun little_endian :: "byte list \<Rightarrow> int" where
  "little_endian [] = 0"
| "little_endian (b # bs) = uint b + 256 * little_endian bs"

definition signed_of :: "nat \<Rightarrow> int \<Rightarrow> int" where
  "signed_of bits n = (if n < 2 ^ (bits - 1) then n else n - 2 ^ bits)"

definition zigzag :: "int \<Rightarrow> int" where
  "zigzag n = (if even n then n div 2 else - ((n + 1) div 2))"

definition read_fixed :: "nat \<Rightarrow> byte list \<Rightarrow> string + int" where
  "read_fixed width payload =
     (if length payload < width then Inl ''index out of range''
      else Inr (little_endian (take width payload)))"

definition read_varint :: "nat \<Rightarrow> byte list \<Rightarrow> string + int" where
  "read_varint bits payload =
     (let continued = length (takeWhile (\<lambda>b. drop_bit 7 b \<noteq> 0) payload) in
      if continued < length payload \<and> continued < 10
      then Inr (base128 (take (continued + 1) payload) mod 2 ^ bits)
      else Inl ''index out of range'')"

definition pbjs_reader :: "scalar reader" where
  "pbjs_reader method payload =
     (if method = ''uint32'' then map_sum id Number (read_varint 32 payload)
      else if method = ''int32'' then map_sum id (\<lambda>n. Number (signed_of 32 n)) (read_varint 32 payload)
      else if method = ''sint32'' then map_sum id (\<lambda>n. Number (zigzag n)) (read_varint 32 payload)
      else if method = ''bool'' then map_sum id (\<lambda>n. Boolean (n \<noteq> 0)) (read_varint 32 payload)
      else if method = ''uint64'' then map_sum id Long (read_varint 64 payload)
      else if method = ''int64'' then map_sum id (\<lambda>n. Long (signed_of 64 n)) (read_varint 64 payload)
      else if method = ''sint64'' then map_sum id (\<lambda>n. Long (zigzag n)) (read_varint 64 payload)
      else if method = ''fixed32'' then map_sum id Number (read_fixed 4 payload)
      else if method = ''sfixed32'' then map_sum id (\<lambda>n. Number (signed_of 32 n)) (read_fixed 4 payload)
      else if method = ''float'' then map_sum id Float32 (read_fixed 4 payload)
      else if method = ''fixed64'' then map_sum id Long (read_fixed 8 payload)
      else if method = ''sfixed64'' then map_sum id (\<lambda>n. Long (signed_of 64 n)) (read_fixed 8 payload)
      else if method = ''double'' then map_sum id Float64 (read_fixed 8 payload)
      else Inl ''not a Reader method'')"

text \<open>A root with the single message \<open>M\<close> of the given fields, and the root whose
  \<open>M\<close> has the single field \<open>repeated <type> items = 1\<close> with the given \<open>packed\<close>
  option.\<close>

definition message_root :: "pb_field list \<Rightarrow> scalar root" where
  "message_root fieldsArray =
     (\<lambda>_. None)(''M'' \<mapsto> PbType fieldsArray (\<lambda>_. Inl ''not decoded''))"

definition single_field_root :: "string \<Rightarrow> bool option \<Rightarrow> scalar root" where
  "single_field_root type packed =
     message_root
       [\<lparr>pb_name = ''items'', pb_type = type, pb_repeated = True, pb_packed = packed\<rparr>]"

text \<open>The stream the constructor builds for such a root, written out: the field's
  declared type, the wire type it maps to, and whether it is read as packed.\<close>

definition stream_for :: "string \<Rightarrow> wire_type \<Rightarrow> bool \<Rightarrow> scalar stream" where
  "stream_for type wt packed =
     \<lparr>repeatedField =
        \<lparr>name = ''items'', wireType = wt, isPacked = packed,
         decodeValue = scalarDecoder pbjs_reader type\<rparr>,
      currentPayloadSize = getPayloadSizeInBytes wt,
      buffer = [], tag = None, readOffset = 0, nextToken = TOKENS_TAG, pushed = []\<rparr>"

section \<open>Properties of outcomes\<close>


text \<open>The stream with more bytes at the end of its buffer, as \<open>_transform\<close> leaves it
  before its loop; and an outcome with those bytes at the end of the buffer it ended with.\<close>

definition append_chunk :: "'x stream \<Rightarrow> byte list \<Rightarrow> 'x stream" where
  "append_chunk s chunk = s\<lparr>buffer := buffer s @ chunk\<rparr>"

definition outcome_append :: "'x outcome \<Rightarrow> byte list \<Rightarrow> 'x outcome" where
  "outcome_append r chunk =
     (case r of
        Inl (e, s) \<Rightarrow> Inl (e, append_chunk s chunk)
      | Inr s \<Rightarrow> Inr (append_chunk s chunk))"

text \<open>What a consumer of the stream sees of an outcome: the entries pushed, and the error
  if one was thrown.\<close>

definition observed :: "'x outcome \<Rightarrow> exn option \<times> 'x entry list" where
  "observed r = (case r of Inl (e, s) \<Rightarrow> (Some e, pushed s) | Inr s \<Rightarrow> (None, pushed s))"

text \<open>How the decode loop goes on from an outcome when more bytes arrive: after a throw
  nothing more is decoded, otherwise the loop runs again on the longer buffer.\<close>

definition resume :: "byte list \<Rightarrow> 'x outcome \<Rightarrow> 'x outcome option" where
  "resume c r =
     (case r of
        Inl (e, t') \<Rightarrow> Some (Inl (e, append_chunk t' c))
      | Inr t' \<Rightarrow> decode_while (append_chunk t' c))"

section \<open>The wire format\<close>










section \<open>The varint primitive computes the base-128 value\<close>

lemma sevenBits_bound: "uint ((b::byte) AND 0x7F) < 128"
proof -
  have "b AND 0x7F \<le> 0x7F" by (rule word_and_le1)
  then have "uint (b AND 0x7F) \<le> uint (0x7F :: byte)" by (simp only: word_le_def)
  then show ?thesis by simp
qed

lemma base128_nonneg: "0 \<le> base128 bs"
  by (induction bs) simp_all

lemma base128_bound: "base128 bs < 2 ^ (7 * length bs)"
proof (induction bs)
  case Nil
  show ?case by simp
next
  case (Cons b bs)
  have "uint (b AND 0x7F) < 128" by (rule sevenBits_bound)
  moreover have "base128 bs + 1 \<le> 2 ^ (7 * length bs)" using Cons.IH by simp
  then have "128 * (base128 bs + 1) \<le> 128 * 2 ^ (7 * length bs)" by simp
  ultimately show ?case by (simp add: power_add)
qed

lemma or_push_bit_int:
  fixes a c :: int
  assumes "0 \<le> a" and "a < 2 ^ n"
  shows "a OR push_bit n c = a + 2 ^ n * c"
proof -
  have a: "take_bit n a = a" using assms by (simp add: take_bit_int_eq_self)
  have "\<not> bit a k \<or> \<not> bit (push_bit n c) k" for k
  proof (cases "k < n")
    case True
    then show ?thesis by (simp add: bit_push_bit_iff)
  next
    case False
    have "bit a k = bit (take_bit n a) k" by (simp only: a)
    then show ?thesis using False by (simp add: bit_take_bit_iff)
  qed
  then have "a + push_bit n c = a OR push_bit n c" by (rule disjunctive_add)
  then show ?thesis by (simp only: push_bit_eq_mult mult.commute)
qed

lemma or_push_bit_word:
  fixes acc :: "32 word" and v :: byte
  assumes "uint acc < 2 ^ n" and "uint acc + 2 ^ n * uint v < 2 ^ 32"
  shows "uint (acc OR push_bit n (ucast v)) = uint acc + 2 ^ n * uint v"
proof -
  have v: "uint v < 2 ^ 32"
    using uint_bounded [of v] by simp
  have v0: "0 \<le> uint v" by simp
  have a0: "0 \<le> uint acc" by simp
  have "2 ^ n * uint v < 2 ^ 32" using assms(2) a0 by linarith
  moreover have "0 \<le> 2 ^ n * uint v" by simp
  ultimately have "take_bit 32 (push_bit n (uint v)) = 2 ^ n * uint v"
    by (simp add: take_bit_int_eq_self push_bit_eq_mult mult.commute)
  moreover have "uint (ucast v :: 32 word) = uint v"
    using v v0 by (simp add: unsigned_ucast_eq take_bit_int_eq_self)
  ultimately have "uint (push_bit n (ucast v) :: 32 word) = 2 ^ n * uint v"
    by (simp add: unsigned_push_bit_eq)
  moreover have "uint (acc OR push_bit n (ucast v)) = uint acc OR uint (push_bit n (ucast v) :: 32 word)"
    by (simp only: unsigned_or_eq)
  ultimately show ?thesis
    using or_push_bit_int [OF a0 assms(1), of "uint v"] by (simp only: push_bit_eq_mult mult.commute)
qed

lemma decodeVarint_loop_value:
  "uint acc < 2 ^ (7 * p) \<Longrightarrow> uint acc + 2 ^ (7 * p) * base128 bs < 2 ^ 31 \<Longrightarrow>
   uint (decodeVarint_loop bs p acc) = uint acc + 2 ^ (7 * p) * base128 bs"
proof (induction bs arbitrary: p acc)
  case Nil
  then show ?case by simp
next
  case (Cons b bs)
  let ?v = "b AND 0x7F"
  let ?acc' = "acc OR push_bit ((p * 7) mod 32) (ucast ?v)"
  have vb: "uint ?v < 128" by (rule sevenBits_bound)
  have rest0: "0 \<le> (2::int) ^ (7 * Suc p) * base128 bs" by (simp add: base128_nonneg)
  have total: "uint acc + 2 ^ (7 * p) * uint ?v + 2 ^ (7 * Suc p) * base128 bs < 2 ^ 31"
    using Cons.prems(2) by (simp add: algebra_simps power_add)
  have step: "uint ?acc' = uint acc + 2 ^ (7 * p) * uint ?v"
  proof (cases "?v = 0")
    case True
    then show ?thesis by simp
  next
    case False
    then have "uint ?v \<noteq> 0" by (simp only: uint_0_iff not_False_eq_True)
    moreover have "0 \<le> uint ?v" by simp
    ultimately have "1 \<le> uint ?v" by linarith
    then have "(2::int) ^ (7 * p) * 1 \<le> 2 ^ (7 * p) * uint ?v" by (intro mult_left_mono) simp_all
    moreover have "0 \<le> uint acc" by simp
    ultimately have lt: "(2::int) ^ (7 * p) < 2 ^ 31" using total rest0 by linarith
    have "7 * p < 31" by (rule power_less_imp_less_exp [OF _ lt]) simp
    then have m: "(p * 7) mod 32 = 7 * p" by (simp add: mult.commute)
    have "(2::int) ^ 31 \<le> 2 ^ 32" by simp
    then have "uint acc + 2 ^ (7 * p) * uint ?v < 2 ^ 32" using total rest0 by linarith
    with Cons.prems(1) show ?thesis
      unfolding m by (rule or_push_bit_word)
  qed
  have inv: "uint ?acc' < 2 ^ (7 * Suc p)"
  proof -
    have a: "2 ^ (7 * p) * uint ?v \<le> 2 ^ (7 * p) * 127"
      using vb by (intro mult_left_mono) simp_all
    have b: "(2::int) ^ (7 * Suc p) = 2 ^ (7 * p) * 128" by (simp add: power_add)
    show ?thesis unfolding step b using Cons.prems(1) a by linarith
  qed
  have "uint (decodeVarint_loop bs (Suc p) ?acc') = uint ?acc' + 2 ^ (7 * Suc p) * base128 bs"
    using inv total step by (intro Cons.IH) simp_all
  then show ?case using step by (simp add: MASKS_MSB_def Let_def algebra_simps power_add)
qed

lemma sint_small:
  fixes w :: "32 word"
  assumes "uint w < 2 ^ 31"
  shows "sint w = uint w"
proof -
  have "0 \<le> uint w" by simp
  then have "- (2 ^ 31) \<le> uint w" by (rule order_trans [rotated]) simp
  with assms have "signed_take_bit 31 (uint w) = uint w"
    by (intro signed_take_bit_int_eq_self)
  then show ?thesis by (simp add: sint_uint)
qed

lemma decodeVarint_small_value:
  assumes "base128 varint < 2 ^ 31"
  shows "decodeVarint varint = base128 varint"
proof -
  have "uint (decodeVarint_loop varint 0 0) = uint (0 :: 32 word) + 2 ^ (7 * 0) * base128 varint"
    using assms by (intro decodeVarint_loop_value) simp_all
  then have u: "uint (decodeVarint_loop varint 0 0) = base128 varint" by simp
  with assms show ?thesis
    by (simp add: decodeVarint_def sint_small)
qed

text \<open>
  Claim C7.  On every byte span whose base-128 little-endian value fits the signed 32-bit
  range of the bitwise operators, and so on every span of at most 4 bytes,
  \<open>decodeVarint\<close> returns that value: the sum over the byte index \<open>i\<close> of
  \<open>(byte_i AND 0x7f) * 128 ^ i\<close>.
\<close>

theorem decodeVarint_base128:
  assumes "base128 varint < 2 ^ 31 \<or> length varint \<le> 4"
  shows "decodeVarint varint = base128 varint"
proof -
  have "base128 varint < 2 ^ 31"
  proof (cases "base128 varint < 2 ^ 31")
    case True
    then show ?thesis .
  next
    case False
    with assms have "length varint \<le> 4" by simp
    then have "(2::int) ^ (7 * length varint) \<le> 2 ^ 28"
      by (intro power_increasing) simp_all
    with base128_bound [of varint] show ?thesis by simp
  qed
  then show ?thesis by (rule decodeVarint_small_value)
qed

theorem decodeVarint_base128_witness:
  "(base128 [0xAC, 0x02] < 2 ^ 31 \<or> length [0xAC, 0x02 :: byte] \<le> 4)
   \<and> decodeVarint [0xAC, 0x02] = 300 \<and> base128 [0xAC, 0x02] = 300"
  using decodeVarint_base128 [of "[0xAC, 0x02]"] by simp

section \<open>Scanning\<close>

declare detectVarint_loop.simps [simp del]
declare detectPayload_loop.simps [simp del]

lemmas construct_simps = RepeatedFieldStream_def validateMessage_def getRepeatedFieldDetails_def
  lookupType_def lookupTypeOrEnum_def message_root_def single_field_root_def getResolvedType_def
  DATA_TYPES_def getWriteType_def getDecoder_def getPayloadSizeInBytes_def stream_for_def

lemmas run_simps = transform_def decode_while.simps decode_def decode_TAG_def decode_LENGTH_def
  decode_PAYLOAD_def detectVarint_def detectVarint_loop.simps detectPayload_def
  detectPayload_loop.simps decodeVarint_def decodePayload_def scalarDecoder_def MASKS_MSB_def
  pbjs_reader_def read_varint_def read_fixed_def signed_of_def zigzag_def Let_def

lemma detectVarint_loop_False: "detectVarint_loop buf offset False = (False, offset)"
  by (subst detectVarint_loop.simps) simp

lemma detectVarint_loop_scan:
  "detectVarint_loop buf offset True =
     (let k = length (takeWhile (\<lambda>b. drop_bit 7 b \<noteq> 0) (drop offset buf)) in
      if k < length (drop offset buf) then (False, offset + k + 1) else (True, offset + k))"
proof (induction "length buf - offset" arbitrary: offset)
  case 0
  then show ?case by (subst detectVarint_loop.simps) simp
next
  case (Suc n)
  then have lt: "offset < length buf" by simp
  then have d: "drop offset buf = buf ! offset # drop (Suc offset) buf"
    by (simp add: Cons_nth_drop_Suc)
  show ?case
  proof (cases "drop_bit 7 (buf ! offset) = 0")
    case True
    then show ?thesis
      using lt by (subst detectVarint_loop.simps) (simp add: d detectVarint_loop_False)
  next
    case False
    have "n = length buf - Suc offset" using Suc.hyps(2) by simp
    from Suc.hyps(1) [OF this] False lt show ?thesis
      by (subst detectVarint_loop.simps) (simp add: d Let_def)
  qed
qed

lemma detectPayload_loop_eq:
  "detectPayload_loop buf payloadSize offset =
     (if int offset < payloadSize \<and> offset < length buf
      then min (nat payloadSize) (length buf) else offset)"
proof (induction buf payloadSize offset rule: detectPayload_loop.induct)
  case (1 buf payloadSize offset)
  show ?case
  proof (cases "int offset < payloadSize \<and> offset < length buf")
    case True
    with 1 show ?thesis
      by (subst detectPayload_loop.simps) (auto simp: min_def)
  next
    case False
    then show ?thesis by (subst detectPayload_loop.simps) auto
  qed
qed

lemma detectVarint_incomplete:
  assumes "readOffset s \<le> length (buffer s)"
    and "\<forall>b \<in> set (drop (readOffset s) (buffer s)). drop_bit 7 b \<noteq> 0"
  shows "detectVarint s = (False, s\<lparr>readOffset := length (buffer s)\<rparr>)"
proof -
  have tw: "takeWhile (\<lambda>b. drop_bit 7 b \<noteq> 0) (drop (readOffset s) (buffer s))
      = drop (readOffset s) (buffer s)"
    using assms(2) by (simp add: takeWhile_eq_all_conv)
  show ?thesis
    using assms(1) by (simp add: detectVarint_def detectVarint_loop_scan tw Let_def)
qed


lemma constructed_int32_unpacked:
  "RepeatedFieldStream pbjs_reader (single_field_root ''int32'' (Some False)) ''M''
     = Inr (stream_for ''int32'' VARINT False)"
  by (simp add: construct_simps)

lemma constructed_fixed32_unpacked:
  "RepeatedFieldStream pbjs_reader (single_field_root ''fixed32'' (Some False)) ''M''
     = Inr (stream_for ''fixed32'' I32 False)"
  by (simp add: construct_simps)

lemma constructed_string:
  "RepeatedFieldStream pbjs_reader (single_field_root ''string'' None) ''M''
     = Inr (stream_for ''string'' LEN False)"
  by (simp add: construct_simps)

section \<open>An unterminated varint is left pending\<close>

text \<open>
  Claim C6.  In a state whose token is scanned as a varint (\<open>TAG\<close>, \<open>LENGTH\<close>, or \<open>PAYLOAD\<close>
  of a varint field), with every byte from \<open>readOffset\<close> on carrying the continuation
  bit, one call of \<open>decode\<close> returns without throwing and changes nothing but
  \<open>readOffset\<close>, which it moves to the end of the buffer: the buffer, the tag, the next
  token, the payload size and the pushed entries are as before.
\<close>

theorem decode_unterminated_varint:
  assumes "nextToken s = TOKENS_TAG \<or> nextToken s = TOKENS_LENGTH
           \<or> (nextToken s = TOKENS_PAYLOAD \<and> wireType (repeatedField s) = VARINT)"
    and "readOffset s \<le> length (buffer s)"
    and "\<forall>b \<in> set (drop (readOffset s) (buffer s)). drop_bit 7 b \<noteq> 0"
  shows "decode s = Inr (s\<lparr>readOffset := length (buffer s)\<rparr>)"
proof -
  note dv = detectVarint_incomplete [OF assms(2,3)]
  from assms(1) consider (t) "nextToken s = TOKENS_TAG" | (l) "nextToken s = TOKENS_LENGTH"
    | (p) "nextToken s = TOKENS_PAYLOAD" "wireType (repeatedField s) = VARINT" by blast
  then show ?thesis
  proof cases
    case t
    then show ?thesis
      by (simp add: decode_def decode_TAG_def decode_LENGTH_def decode_PAYLOAD_def dv)
  next
    case l
    then show ?thesis
      by (simp add: decode_def decode_TAG_def decode_LENGTH_def decode_PAYLOAD_def dv)
  next
    case p
    then show ?thesis
      by (simp add: decode_def decode_TAG_def decode_LENGTH_def decode_PAYLOAD_def dv)
  qed
qed

theorem decode_unterminated_varint_witness:
  "decode ((stream_for ''int32'' VARINT True)\<lparr>buffer := [0x80, 0x81], readOffset := 1\<rparr>)
     = Inr ((stream_for ''int32'' VARINT True)\<lparr>buffer := [0x80, 0x81], readOffset := 2\<rparr>)
   \<and> decode ((stream_for ''int32'' VARINT True)
         \<lparr>buffer := [0xFF], nextToken := TOKENS_PAYLOAD\<rparr>)
     = Inr ((stream_for ''int32'' VARINT True)
         \<lparr>buffer := [0xFF], readOffset := 1, nextToken := TOKENS_PAYLOAD\<rparr>)"
  using decode_unterminated_varint
          [of "(stream_for ''int32'' VARINT True)\<lparr>buffer := [0x80, 0x81], readOffset := 1\<rparr>"]
        decode_unterminated_varint
          [of "(stream_for ''int32'' VARINT True)
                 \<lparr>buffer := [0xFF], nextToken := TOKENS_PAYLOAD\<rparr>"]
  by (simp add: stream_for_def)

section \<open>The decode loop and the end of input\<close>

lemma decode_while_exit:
  assumes "decode_while s = Some (Inr s')"
  shows "length (buffer s') \<le> readOffset s'"
proof -
  have "\<forall>t. r = Inr t \<longrightarrow> length (buffer t) \<le> readOffset t"
    if "decode_while s = Some r" for r
    by (rule decode_while.raw_induct
          [where P = "\<lambda>s r. \<forall>t. r = Inr t \<longrightarrow> length (buffer t) \<le> readOffset t", OF _ that])
       (auto split: if_splits sum.splits)
  with assms show ?thesis by blast
qed

lemma decode_while_done:
  "length (buffer s) \<le> readOffset s \<Longrightarrow> decode_while s = Some (Inr s)"
  by (subst decode_while.simps) simp

text \<open>
  Claim C8.  After the last chunk has been taken without an error, whatever token is
  still incomplete, \<open>_flush\<close> returns at once without an error and without pushing
  anything, whether it runs before or after \<open>_final\<close>; and \<open>_final\<close> empties the buffer, so
  the bytes of the incomplete token are dropped, and pushes nothing.
\<close>

theorem flush_after_input:
  assumes "transform s chunk = Some (Inr s')"
  shows "flush s' = Some (Inr s') \<and> flush (final s') = Some (Inr (final s'))
         \<and> buffer (final s') = [] \<and> pushed (final s') = pushed s'"
proof -
  have "length (buffer s') \<le> readOffset s'"
    using assms unfolding transform_def by (rule decode_while_exit)
  then show ?thesis
    by (simp add: flush_def final_def cleanup_def decode_while_done)
qed

lemma truncated_string_run:
  "transform (stream_for ''string'' LEN False) [0x0A, 0x05, 0x61]
     = Some (Inr ((stream_for ''string'' LEN False)
         \<lparr>currentPayloadSize := 5, buffer := [0x61], tag := Some 10, readOffset := 1,
           nextToken := TOKENS_PAYLOAD\<rparr>))"
  by (simp add: run_simps stream_for_def getPayloadSizeInBytes_def)

theorem flush_after_input_witness:
  "flush ((stream_for ''string'' LEN False)
       \<lparr>currentPayloadSize := 5, buffer := [0x61], tag := Some 10, readOffset := 1,
         nextToken := TOKENS_PAYLOAD\<rparr>)
     = Some (Inr ((stream_for ''string'' LEN False)
       \<lparr>currentPayloadSize := 5, buffer := [0x61], tag := Some 10, readOffset := 1,
         nextToken := TOKENS_PAYLOAD\<rparr>))
   \<and> buffer (final ((stream_for ''string'' LEN False)
       \<lparr>currentPayloadSize := 5, buffer := [0x61], tag := Some 10, readOffset := 1,
         nextToken := TOKENS_PAYLOAD\<rparr>)) = []
   \<and> pushed (final ((stream_for ''string'' LEN False)
       \<lparr>currentPayloadSize := 5, buffer := [0x61], tag := Some 10, readOffset := 1,
         nextToken := TOKENS_PAYLOAD\<rparr>)) = []"
  using flush_after_input [OF truncated_string_run]
  by (simp add: stream_for_def)

section \<open>A zero length completes an empty payload\<close>

text \<open>
  Claim C10.  For a length-delimited field (which is never packed), when the \<open>LENGTH\<close>
  token is complete in the buffer and decodes to 0, the same call of \<open>decode\<close> goes on to
  the payload and completes it with the empty span: it hands \<open>[]\<close> to the field's decoder,
  pushes the entry it returns, removes only the bytes of the length from the buffer, and
  is back in the \<open>TAG\<close> state (or throws the payload error if the decoder throws).  For a
  \<open>string\<close> field the entry is the empty string, for a \<open>bytes\<close> field the empty buffer.
\<close>

theorem zero_length_completes_payload:
  assumes "wireType (repeatedField s) = LEN" and "\<not> isPacked (repeatedField s)"
    and "nextToken s = TOKENS_LENGTH"
    and "detectVarint s = (True, s1)"
    and "decodeVarint (take (readOffset s1) (buffer s1)) = 0"
  shows "decode s =
           (case decodeValue (repeatedField s) [] of
              Inl error \<Rightarrow>
                Inl (RepeatedFieldStreamError (ERRORS_PAYLOAD error),
                     s\<lparr>currentPayloadSize := 0, buffer := drop (readOffset s1) (buffer s),
                       readOffset := 0, nextToken := TOKENS_PAYLOAD\<rparr>)
            | Inr entry \<Rightarrow>
                Inr (s\<lparr>currentPayloadSize := 0, buffer := drop (readOffset s1) (buffer s),
                       readOffset := 0, nextToken := TOKENS_TAG,
                       pushed := pushed s @ [entry]\<rparr>))
         \<and> scalarDecoder reader ''string'' [] = Inr (Utf8String [])
         \<and> scalarDecoder reader ''bytes'' [] = Inr (RawBuffer [])"
proof -
  from assms(4) obtain k where s1: "s1 = s\<lparr>readOffset := k\<rparr>"
    by (auto simp: detectVarint_def split: prod.splits)
  have dv: "detectVarint s = (True, s\<lparr>readOffset := k\<rparr>)"
    using assms(4) s1 by simp
  have z: "decodeVarint (take k (buffer s)) = 0"
    using assms(5) s1 by simp
  have "decode s = decode_PAYLOAD (s\<lparr>currentPayloadSize := 0, buffer := drop k (buffer s),
                       readOffset := 0, nextToken := TOKENS_PAYLOAD\<rparr>)"
    using assms(2,3) by (simp add: decode_def decode_TAG_def decode_LENGTH_def dv z)
  also have "\<dots> = (case decodeValue (repeatedField s) [] of
              Inl error \<Rightarrow>
                Inl (RepeatedFieldStreamError (ERRORS_PAYLOAD error),
                     s\<lparr>currentPayloadSize := 0, buffer := drop k (buffer s),
                       readOffset := 0, nextToken := TOKENS_PAYLOAD\<rparr>)
            | Inr entry \<Rightarrow>
                Inr (s\<lparr>currentPayloadSize := 0, buffer := drop k (buffer s),
                       readOffset := 0, nextToken := TOKENS_TAG,
                       pushed := pushed s @ [entry]\<rparr>))"
    using assms(1,2)
    by (simp add: decode_PAYLOAD_def detectPayload_def detectPayload_loop_eq decodePayload_def
        split: sum.splits)
  finally show ?thesis
    unfolding s1 by (simp add: scalarDecoder_def cong: sum.case_cong)
qed

theorem zero_length_completes_payload_witness:
  "decode ((stream_for ''string'' LEN False)
       \<lparr>buffer := [0x00, 0x0A], tag := Some 10, nextToken := TOKENS_LENGTH\<rparr>)
     = Inr ((stream_for ''string'' LEN False)
       \<lparr>buffer := [0x0A], tag := Some 10, nextToken := TOKENS_TAG,
         pushed := [Utf8String []]\<rparr>)"
  using zero_length_completes_payload
    [of "(stream_for ''string'' LEN False)
           \<lparr>buffer := [0x00, 0x0A], tag := Some 10, nextToken := TOKENS_LENGTH\<rparr>"
        "(stream_for ''string'' LEN False)
           \<lparr>buffer := [0x00, 0x0A], tag := Some 10, readOffset := 1,
             nextToken := TOKENS_LENGTH\<rparr>"]
  by (simp add: stream_for_def detectVarint_def detectVarint_loop.simps decodeVarint_def
      scalarDecoder_def getPayloadSizeInBytes_def Let_def)

section \<open>A packed field stays in the payload state\<close>







section \<open>Construction\<close>

text \<open>
  Claim C5, amended.  Construction throws a \<open>RepeatedFieldStreamError\<close> in exactly four
  cases, each with a template of its own: the message type is not in the root, the
  message has no field, it has more than one field, or its single field is not repeated.
  In every other case validation passes; construction then succeeds when the type of the
  field is a built-in scalar type or resolves in the root, and otherwise throws the error
  of the failed lookup of that type.
\<close>

theorem construction_outcome:
  "((\<forall>fieldsArray dec. root messageName \<noteq> Some (PbType fieldsArray dec)) \<longrightarrow>
      RepeatedFieldStream reader root messageName
        = Inl (RepeatedFieldStreamError (MESSAGE_NOT_EXISTS messageName)))
   \<and> (root messageName = Some (PbType [] dec) \<longrightarrow>
      RepeatedFieldStream reader root messageName
        = Inl (RepeatedFieldStreamError (MESSAGE_EMPTY_FIELD messageName)))
   \<and> (root messageName = Some (PbType fieldsArray dec) \<and> length fieldsArray > 1 \<longrightarrow>
      RepeatedFieldStream reader root messageName
        = Inl (RepeatedFieldStreamError (MESSAGE_MORE_FIELDS messageName (length fieldsArray))))
   \<and> (root messageName = Some (PbType [field] dec) \<and> \<not> pb_repeated field \<longrightarrow>
      RepeatedFieldStream reader root messageName
        = Inl (RepeatedFieldStreamError (MESSAGE_NOT_REPEATED messageName (pb_name field))))
   \<and> (root messageName = Some (PbType [field] dec) \<and> pb_repeated field \<longrightarrow>
      (if pb_type field \<in> set DATA_TYPES \<or> root (pb_type field) \<noteq> None
       then \<exists>s. RepeatedFieldStream reader root messageName = Inr s
       else RepeatedFieldStream reader root messageName = Inl (LookupError (pb_type field))))"
proof (intro conjI impI)
  assume "\<forall>fieldsArray dec. root messageName \<noteq> Some (PbType fieldsArray dec)"
  then show "RepeatedFieldStream reader root messageName
        = Inl (RepeatedFieldStreamError (MESSAGE_NOT_EXISTS messageName))"
    by (simp add: RepeatedFieldStream_def validateMessage_def lookupType_def
        split: option.splits reflection.splits)
next
  assume "root messageName = Some (PbType [] dec)"
  then show "RepeatedFieldStream reader root messageName
        = Inl (RepeatedFieldStreamError (MESSAGE_EMPTY_FIELD messageName))"
    by (simp add: RepeatedFieldStream_def validateMessage_def lookupType_def)
next
  assume "root messageName = Some (PbType fieldsArray dec) \<and> length fieldsArray > 1"
  then show "RepeatedFieldStream reader root messageName
        = Inl (RepeatedFieldStreamError (MESSAGE_MORE_FIELDS messageName (length fieldsArray)))"
    by (cases fieldsArray) (simp_all add: RepeatedFieldStream_def validateMessage_def lookupType_def)
next
  assume "root messageName = Some (PbType [field] dec) \<and> \<not> pb_repeated field"
  then show "RepeatedFieldStream reader root messageName
        = Inl (RepeatedFieldStreamError (MESSAGE_NOT_REPEATED messageName (pb_name field)))"
    by (simp add: RepeatedFieldStream_def validateMessage_def lookupType_def)
next
  assume a: "root messageName = Some (PbType [field] dec) \<and> pb_repeated field"
  then have v: "validateMessage root messageName = Inr ()"
    by (simp add: validateMessage_def lookupType_def)
  show "if pb_type field \<in> set DATA_TYPES \<or> root (pb_type field) \<noteq> None
       then \<exists>s. RepeatedFieldStream reader root messageName = Inr s
       else RepeatedFieldStream reader root messageName = Inl (LookupError (pb_type field))"
  proof (cases "pb_type field \<in> set DATA_TYPES")
    case True
    with a show ?thesis
      by (simp add: RepeatedFieldStream_def v getRepeatedFieldDetails_def lookupType_def
          getResolvedType_def getDecoder_def Let_def)
  next
    case False
    show ?thesis
    proof (cases "root (pb_type field)")
      case None
      with a False show ?thesis
        by (simp add: RepeatedFieldStream_def v getRepeatedFieldDetails_def lookupType_def
            getResolvedType_def lookupTypeOrEnum_def)
    next
      case (Some r)
      with a False show ?thesis
        by (cases r)
           (simp_all add: RepeatedFieldStream_def v getRepeatedFieldDetails_def lookupType_def
            getResolvedType_def lookupTypeOrEnum_def getDecoder_def Let_def DATA_TYPES_def)
    qed
  qed
qed

theorem construction_outcome_witness:
  "RepeatedFieldStream pbjs_reader (message_root []) ''N''
     = Inl (RepeatedFieldStreamError (MESSAGE_NOT_EXISTS ''N''))
   \<and> RepeatedFieldStream pbjs_reader (message_root []) ''M''
     = Inl (RepeatedFieldStreamError (MESSAGE_EMPTY_FIELD ''M''))
   \<and> RepeatedFieldStream pbjs_reader
       (message_root
          [\<lparr>pb_name = ''numbers'', pb_type = ''int32'', pb_repeated = True, pb_packed = None\<rparr>,
           \<lparr>pb_name = ''name'', pb_type = ''string'', pb_repeated = False, pb_packed = None\<rparr>])
       ''M''
     = Inl (RepeatedFieldStreamError (MESSAGE_MORE_FIELDS ''M'' 2))
   \<and> RepeatedFieldStream pbjs_reader
       (message_root
          [\<lparr>pb_name = ''number'', pb_type = ''int32'', pb_repeated = False, pb_packed = None\<rparr>])
       ''M''
     = Inl (RepeatedFieldStreamError (MESSAGE_NOT_REPEATED ''M'' ''number''))
   \<and> (\<exists>s. RepeatedFieldStream pbjs_reader (single_field_root ''int32'' None) ''M'' = Inr s)
   \<and> RepeatedFieldStream pbjs_reader (single_field_root ''Missing'' None) ''M''
     = Inl (LookupError ''Missing'')"
  using construction_outcome
      [where root = "message_root []" and messageName = "''N''" and reader = pbjs_reader]
    construction_outcome
      [where root = "message_root []" and messageName = "''M''" and reader = pbjs_reader
         and dec = "\<lambda>_. Inl ''not decoded''"]
    construction_outcome
      [where root = "message_root
          [\<lparr>pb_name = ''numbers'', pb_type = ''int32'', pb_repeated = True, pb_packed = None\<rparr>,
           \<lparr>pb_name = ''name'', pb_type = ''string'', pb_repeated = False, pb_packed = None\<rparr>]"
         and messageName = "''M''" and reader = pbjs_reader
         and dec = "\<lambda>_. Inl ''not decoded''"
         and fieldsArray =
           "[\<lparr>pb_name = ''numbers'', pb_type = ''int32'', pb_repeated = True, pb_packed = None\<rparr>,
             \<lparr>pb_name = ''name'', pb_type = ''string'', pb_repeated = False, pb_packed = None\<rparr>]"]
    construction_outcome
      [where root = "message_root
          [\<lparr>pb_name = ''number'', pb_type = ''int32'', pb_repeated = False, pb_packed = None\<rparr>]"
         and messageName = "''M''" and reader = pbjs_reader
         and dec = "\<lambda>_. Inl ''not decoded''"
         and field =
           "\<lparr>pb_name = ''number'', pb_type = ''int32'', pb_repeated = False, pb_packed = None\<rparr>"]
    construction_outcome
      [where root = "single_field_root ''int32'' None" and messageName = "''M''"
         and reader = pbjs_reader and dec = "\<lambda>_. Inl ''not decoded''"
         and field =
           "\<lparr>pb_name = ''items'', pb_type = ''int32'', pb_repeated = True, pb_packed = None\<rparr>"]
    construction_outcome
      [where root = "single_field_root ''Missing'' None" and messageName = "''M''"
         and reader = pbjs_reader and dec = "\<lambda>_. Inl ''not decoded''"
         and field =
           "\<lparr>pb_name = ''items'', pb_type = ''Missing'', pb_repeated = True, pb_packed = None\<rparr>"]
  by (simp add: message_root_def single_field_root_def DATA_TYPES_def)

text \<open>The claim as stated fails: the message \<open>M\<close> exists and has exactly one field, which is
  repeated, and yet construction does not succeed.\<close>

theorem construction_unresolved_type:
  "single_field_root ''Missing'' None ''M''
     = Some (PbType [\<lparr>pb_name = ''items'', pb_type = ''Missing'', pb_repeated = True,
                       pb_packed = None\<rparr>] (\<lambda>_. Inl ''not decoded''))
   \<and> RepeatedFieldStream pbjs_reader (single_field_root ''Missing'' None) ''M''
     = Inl (LookupError ''Missing'')"
  by (simp add: construct_simps)

section \<open>Defects\<close>

text \<open>
  Claim C3 fails on the code.  A non-packed \<open>fixed32\<close> field, two elements
  \<open>0D 01 00 00 00\<close> and \<open>0D 02 00 00 00\<close>: the first payload is framed as 4 bytes, and its
  completion sets \<open>currentPayloadSize\<close> to 0; on the second element the payload is then
  framed as the empty span, which the reader cannot decode, and the 4 payload bytes are
  still in the buffer.
\<close>

theorem unpacked_fixed32_second_element:
  "transform (stream_for ''fixed32'' I32 False) [0x0D, 1, 0, 0, 0]
     = Some (Inr ((stream_for ''fixed32'' I32 False)
          \<lparr>currentPayloadSize := 0, tag := Some 13, pushed := [Decoded (Number 1)]\<rparr>))
   \<and> transform ((stream_for ''fixed32'' I32 False)
          \<lparr>currentPayloadSize := 0, tag := Some 13, pushed := [Decoded (Number 1)]\<rparr>)
        [0x0D, 2, 0, 0, 0]
     = Some (Inl (RepeatedFieldStreamError (ERRORS_PAYLOAD ''index out of range''),
          (stream_for ''fixed32'' I32 False)
          \<lparr>currentPayloadSize := 0, buffer := [2, 0, 0, 0], tag := Some 13,
            nextToken := TOKENS_PAYLOAD, pushed := [Decoded (Number 1)]\<rparr>))"
  by (simp add: run_simps stream_for_def getPayloadSizeInBytes_def)

text \<open>
  Claim C4 fails on the code.  A non-packed \<open>int32\<close> field, input \<open>00 01 08 02\<close>: the first
  tag decodes to 0 and is stored; the second tag decodes to 8, which differs, and instead
  of a framing error the stored tag becomes 8 and the element is pushed.
\<close>

theorem zero_tag_is_reassigned:
  "transform (stream_for ''int32'' VARINT False) [0x00, 0x01]
     = Some (Inr ((stream_for ''int32'' VARINT False)
          \<lparr>tag := Some 0, pushed := [Decoded (Number 1)]\<rparr>))
   \<and> transform ((stream_for ''int32'' VARINT False)
          \<lparr>tag := Some 0, pushed := [Decoded (Number 1)]\<rparr>) [0x08, 0x02]
     = Some (Inr ((stream_for ''int32'' VARINT False)
          \<lparr>tag := Some 8, pushed := [Decoded (Number 1), Decoded (Number 2)]\<rparr>))"
  by (simp add: run_simps stream_for_def getPayloadSizeInBytes_def)

text \<open>
  What does hold of the stored tag: a stored tag other than 0 is kept by every step and by
  every write, whatever the outcome, and a completed \<open>TAG\<close> token that decodes to another
  value throws the tag error, with nothing pushed.
\<close>

lemma detectVarint_frame:
  assumes "detectVarint s = (b, s1)"
  shows "s1 = s\<lparr>readOffset := readOffset s1\<rparr>"
  using assms by (auto simp: detectVarint_def split: prod.splits)

lemma detectPayload_frame:
  assumes "detectPayload s = (b, s1)"
  shows "s1 = s\<lparr>readOffset := readOffset s1\<rparr>"
  using assms by (auto simp: detectPayload_def Let_def)

lemma decode_TAG_keeps_tag:
  assumes "tag s = Some t" and "t \<noteq> 0"
  shows "case decode_TAG s of Inl (e, s') \<Rightarrow> tag s' = Some t | Inr s' \<Rightarrow> tag s' = Some t"
proof (cases "detectVarint s")
  case (Pair b s1)
  from detectVarint_frame [OF Pair] have "tag s1 = tag s"
    by (cases s, cases s1) simp
  with assms Pair show ?thesis
    by (cases b) (auto simp: decode_TAG_def Let_def)
qed

lemma decode_LENGTH_keeps_tag: "tag (decode_LENGTH s) = tag s"
proof (cases "detectVarint s")
  case (Pair b s1)
  from detectVarint_frame [OF Pair] have "tag s1 = tag s"
    by (cases s, cases s1) simp
  with Pair show ?thesis
    by (cases b) (auto simp: decode_LENGTH_def Let_def)
qed

lemma decode_PAYLOAD_keeps_tag:
  "case decode_PAYLOAD s of Inl (e, s') \<Rightarrow> tag s' = tag s | Inr s' \<Rightarrow> tag s' = tag s"
proof -
  obtain b s1 where d: "(if wireType (repeatedField s) = VARINT then detectVarint s
       else detectPayload s) = (b, s1)" by (cases "if wireType (repeatedField s) = VARINT then detectVarint s
       else detectPayload s") 
  then have "s1 = s\<lparr>readOffset := readOffset s1\<rparr>"
    using detectVarint_frame detectPayload_frame by (metis (full_types))
  then have "tag s1 = tag s" by (cases s, cases s1) simp
  with d show ?thesis
    by (cases b) (auto simp: decode_PAYLOAD_def Let_def split: sum.splits)
qed

lemma decode_keeps_tag:
  assumes "tag s = Some t" and "t \<noteq> 0"
  shows "case decode s of Inl (e, s') \<Rightarrow> tag s' = Some t | Inr s' \<Rightarrow> tag s' = Some t"
proof (cases "decode_TAG s")
  case (Inl thrown)
  with decode_TAG_keeps_tag [OF assms] show ?thesis by (simp add: decode_def)
next
  case (Inr s1)
  with decode_TAG_keeps_tag [OF assms] have "tag s1 = Some t" by simp
  then have "tag (decode_LENGTH s1) = Some t" by (simp add: decode_LENGTH_keeps_tag)
  with decode_PAYLOAD_keeps_tag [of "decode_LENGTH s1"] Inr show ?thesis
    by (simp add: decode_def split: sum.splits prod.splits)
qed

lemma decode_while_keeps_tag:
  assumes "decode_while s = Some r" and "tag s = Some t" and "t \<noteq> 0"
  shows "case r of Inl (e, s') \<Rightarrow> tag s' = Some t | Inr s' \<Rightarrow> tag s' = Some t"
proof -
  have "tag s = Some t \<longrightarrow>
      (case r of Inl (e, s') \<Rightarrow> tag s' = Some t | Inr s' \<Rightarrow> tag s' = Some t)"
  proof (rule decode_while.raw_induct
      [where P = "\<lambda>s r. tag s = Some t \<longrightarrow>
         (case r of Inl (e, s') \<Rightarrow> tag s' = Some t | Inr s' \<Rightarrow> tag s' = Some t)",
       OF _ assms(1)])
    fix dw :: "'a stream \<Rightarrow> 'a outcome option" and s0 r0
    assume ih: "\<And>s r. dw s = Some r \<Longrightarrow> tag s = Some t \<longrightarrow>
         (case r of Inl (e, s') \<Rightarrow> tag s' = Some t | Inr s' \<Rightarrow> tag s' = Some t)"
      and step: "(if readOffset s0 < length (buffer s0)
            then (case decode s0 of Inl thrown \<Rightarrow> Some (Inl thrown) | Inr s' \<Rightarrow> dw s')
            else Some (Inr s0)) = Some r0"
    show "tag s0 = Some t \<longrightarrow>
         (case r0 of Inl (e, s') \<Rightarrow> tag s' = Some t | Inr s' \<Rightarrow> tag s' = Some t)"
    proof
      assume t0: "tag s0 = Some t"
      show "case r0 of Inl (e, s') \<Rightarrow> tag s' = Some t | Inr s' \<Rightarrow> tag s' = Some t"
      proof (cases "readOffset s0 < length (buffer s0)")
        case False
        with step t0 show ?thesis by auto
      next
        case True
        show ?thesis
        proof (cases "decode s0")
          case (Inl thrown)
          with True step decode_keeps_tag [OF t0 assms(3)] show ?thesis by auto
        next
          case (Inr s1)
          with decode_keeps_tag [OF t0 assms(3)] have "tag s1 = Some t" by simp
          moreover from Inr True step have "dw s1 = Some r0" by simp
          ultimately show ?thesis using ih by blast
        qed
      qed
    qed
  qed
  with assms(2) show ?thesis by simp
qed

lemma transform_keeps_tag:
  assumes "transform s chunk = Some r" and "tag s = Some t" and "t \<noteq> 0"
  shows "case r of Inl (e, s') \<Rightarrow> tag s' = Some t | Inr s' \<Rightarrow> tag s' = Some t"
  using decode_while_keeps_tag [of "s\<lparr>buffer := buffer s @ chunk\<rparr>" r t] assms
  by (simp add: transform_def)

lemma decode_tag_mismatch:
  assumes "nextToken s = TOKENS_TAG" and "tag s = Some t" and "t \<noteq> 0"
    and "detectVarint s = (True, s1)"
    and "decodeVarint (take (readOffset s1) (buffer s)) \<noteq> t"
  shows "decode s = Inl (RepeatedFieldStreamError
            (ERRORS_TAG t (decodeVarint (take (readOffset s1) (buffer s)))), s1)"
    and "pushed s1 = pushed s"
proof -
  from detectVarint_frame [OF assms(4)]
  have f: "tag s1 = tag s" "buffer s1 = buffer s" "pushed s1 = pushed s"
    by (cases s, cases s1, simp)+
  from assms f show "decode s = Inl (RepeatedFieldStreamError
            (ERRORS_TAG t (decodeVarint (take (readOffset s1) (buffer s)))), s1)"
    by (simp add: decode_def decode_TAG_def Let_def)
  from f show "pushed s1 = pushed s" by simp
qed

text \<open>
  The same defect end to end.  The non-packed encoding of the \<open>fixed32\<close> values 1 and 2,
  written as one chunk: the stream pushes 1 and then fails.
\<close>

lemma unpacked_fixed32_round_trip_fails:
  "write_chunks (stream_for ''fixed32'' I32 False) [[0x0D, 1, 0, 0, 0, 0x0D, 2, 0, 0, 0]]
     = Some (Inl (RepeatedFieldStreamError (ERRORS_PAYLOAD ''index out of range''),
          (stream_for ''fixed32'' I32 False)
          \<lparr>currentPayloadSize := 0, buffer := [2, 0, 0, 0], tag := Some 13,
            nextToken := TOKENS_PAYLOAD, pushed := [Decoded (Number 1)]\<rparr>))"
  by (simp add: run_simps stream_for_def getPayloadSizeInBytes_def)

section \<open>Chunk boundaries\<close>

lemma append_chunk_simps [simp]:
  "buffer (append_chunk s c) = buffer s @ c"
  "readOffset (append_chunk s c) = readOffset s"
  "nextToken (append_chunk s c) = nextToken s"
  "tag (append_chunk s c) = tag s"
  "pushed (append_chunk s c) = pushed s"
  "currentPayloadSize (append_chunk s c) = currentPayloadSize s"
  "repeatedField (append_chunk s c) = repeatedField s"
  by (simp_all add: append_chunk_def)

lemma append_chunk_Nil [simp]: "append_chunk s [] = s"
  by (simp add: append_chunk_def)

lemma append_chunk_update [simp]:
  "append_chunk (s\<lparr>readOffset := k\<rparr>) c = (append_chunk s c)\<lparr>readOffset := k\<rparr>"
  "append_chunk (s\<lparr>tag := t\<rparr>) c = (append_chunk s c)\<lparr>tag := t\<rparr>"
  "append_chunk (s\<lparr>nextToken := n\<rparr>) c = (append_chunk s c)\<lparr>nextToken := n\<rparr>"
  "append_chunk (s\<lparr>pushed := p\<rparr>) c = (append_chunk s c)\<lparr>pushed := p\<rparr>"
  "append_chunk (s\<lparr>currentPayloadSize := z\<rparr>) c = (append_chunk s c)\<lparr>currentPayloadSize := z\<rparr>"
  by (simp_all add: append_chunk_def)

lemma outcome_append_simps [simp]:
  "outcome_append (Inl (e, s)) c = Inl (e, append_chunk s c)"
  "outcome_append (Inr s) c = Inr (append_chunk s c)"
  by (simp_all add: outcome_append_def)

lemma outcome_append_Nil [simp]: "outcome_append r [] = r"
  by (cases r) auto

text \<open>Scanning a varint in a longer buffer.\<close>

lemma detectVarint_found_append:
  assumes "readOffset t \<le> length (buffer t)" and "detectVarint t = (True, t1)"
  shows "detectVarint (append_chunk t c) = (True, append_chunk t1 c)"
    and "readOffset t1 \<le> length (buffer t)" and "t1 = t\<lparr>readOffset := readOffset t1\<rparr>"
proof -
  let ?P = "\<lambda>b::byte. drop_bit 7 b \<noteq> 0"
  let ?rest = "drop (readOffset t) (buffer t)"
  let ?k = "length (takeWhile ?P ?rest)"
  from assms(2) have k: "?k < length ?rest" and t1: "t1 = t\<lparr>readOffset := readOffset t + ?k + 1\<rparr>"
    by (auto simp: detectVarint_def detectVarint_loop_scan Let_def split: if_splits)
  have "\<exists>x \<in> set ?rest. \<not> ?P x"
  proof (rule ccontr)
    assume "\<not> (\<exists>x \<in> set ?rest. \<not> ?P x)"
    then have "takeWhile ?P ?rest = ?rest" by (simp add: takeWhile_eq_all_conv)
    with k show False by simp
  qed
  then obtain x where "x \<in> set ?rest" "\<not> ?P x" by blast
  then have tw: "takeWhile ?P (?rest @ c) = takeWhile ?P ?rest"
    by (rule takeWhile_append1)
  show "detectVarint (append_chunk t c) = (True, append_chunk t1 c)"
    using assms(1) k by (simp add: detectVarint_def detectVarint_loop_scan Let_def tw t1)
  show "readOffset t1 \<le> length (buffer t)" using k t1 by simp
  show "t1 = t\<lparr>readOffset := readOffset t1\<rparr>" using t1 by simp
qed

lemma detectVarint_pending_append:
  assumes "readOffset t \<le> length (buffer t)" and "detectVarint t = (False, t1)"
  shows "t1 = t\<lparr>readOffset := length (buffer t)\<rparr>"
    and "detectVarint (append_chunk t c) = detectVarint (append_chunk t1 c)"
proof -
  let ?P = "\<lambda>b::byte. drop_bit 7 b \<noteq> 0"
  let ?rest = "drop (readOffset t) (buffer t)"
  let ?k = "length (takeWhile ?P ?rest)"
  from assms(2) have k: "\<not> ?k < length ?rest" and t1': "t1 = t\<lparr>readOffset := readOffset t + ?k\<rparr>"
    by (auto simp: detectVarint_def detectVarint_loop_scan Let_def split: if_splits)
  have "?k \<le> length ?rest" by (rule length_takeWhile_le)
  with k have keq: "?k = length ?rest" by simp
  have "takeWhile ?P ?rest = take ?k ?rest" by (rule takeWhile_eq_take)
  also have "\<dots> = ?rest" by (simp only: keq take_all order_refl)
  finally have all: "takeWhile ?P ?rest = ?rest" .
  show t1: "t1 = t\<lparr>readOffset := length (buffer t)\<rparr>"
    using t1' keq assms(1) by simp
  have "\<forall>x \<in> set ?rest. ?P x" using all by (simp add: takeWhile_eq_all_conv)
  then have tw: "takeWhile ?P (?rest @ c) = ?rest @ takeWhile ?P c"
    by (simp add: takeWhile_append2)
  show "detectVarint (append_chunk t c) = detectVarint (append_chunk t1 c)"
    using assms(1) by (simp add: detectVarint_def detectVarint_loop_scan Let_def tw t1) arith
qed

lemma detectPayload_found_append:
  assumes "readOffset t \<le> length (buffer t)" and "detectPayload t = (True, t1)"
  shows "detectPayload (append_chunk t c) = (True, append_chunk t1 c)"
    and "readOffset t1 \<le> length (buffer t)" and "t1 = t\<lparr>readOffset := readOffset t1\<rparr>"
  using assms
  by (auto simp: detectPayload_def detectPayload_loop_eq Let_def min_def split: if_splits)

lemma detectPayload_pending_append:
  assumes "readOffset t \<le> length (buffer t)" and "detectPayload t = (False, t1)"
  shows "(t1 = t \<and> detectPayload (append_chunk t c) = (False, append_chunk t c))
       \<or> (t1 = t\<lparr>readOffset := length (buffer t)\<rparr>
          \<and> detectPayload (append_chunk t c) = detectPayload (append_chunk t1 c))"
  using assms
  by (auto simp: detectPayload_def detectPayload_loop_eq Let_def min_def split: if_splits)

lemma take_drop_append_le:
  "k \<le> length xs \<Longrightarrow> take k (xs @ ys) = take k xs"
  "k \<le> length xs \<Longrightarrow> drop k (xs @ ys) = drop k xs @ ys"
  by simp_all

lemma decode_PAYLOAD_append:
  assumes "readOffset t \<le> length (buffer t)"
  shows "decode_PAYLOAD (append_chunk t c) = outcome_append (decode_PAYLOAD t) c
       \<or> (nextToken t = TOKENS_PAYLOAD
          \<and> decode_PAYLOAD t = Inr (t\<lparr>readOffset := length (buffer t)\<rparr>)
          \<and> decode_PAYLOAD (append_chunk t c)
              = decode_PAYLOAD (append_chunk (t\<lparr>readOffset := length (buffer t)\<rparr>) c))"
proof (cases "nextToken t = TOKENS_PAYLOAD")
  case False
  then show ?thesis by (simp add: decode_PAYLOAD_def)
next
  case True
  let ?detect = "\<lambda>s. if wireType (repeatedField s) = VARINT then detectVarint s else detectPayload s"
  obtain found t1 where d: "?detect t = (found, t1)" by (cases "?detect t")
  show ?thesis
  proof (cases found)
    case True
    have a: "?detect (append_chunk t c) = (True, append_chunk t1 c)"
      and b: "readOffset t1 \<le> length (buffer t)" and e: "t1 = t\<lparr>readOffset := readOffset t1\<rparr>"
    proof -
      show "?detect (append_chunk t c) = (True, append_chunk t1 c)"
        using d True detectVarint_found_append(1) [OF assms, of t1 c]
          detectPayload_found_append(1) [OF assms, of t1 c]
        by (simp split: if_splits)
      show "readOffset t1 \<le> length (buffer t)"
        using d True detectVarint_found_append(2) [OF assms, of t1]
          detectPayload_found_append(2) [OF assms, of t1]
        by (simp split: if_splits)
      show "t1 = t\<lparr>readOffset := readOffset t1\<rparr>"
        using d True detectVarint_found_append(3) [OF assms, of t1]
          detectPayload_found_append(3) [OF assms, of t1]
        by (simp split: if_splits)
    qed
    have bt: "buffer t1 = buffer t" by (subst e) simp
    have "decode_PAYLOAD (append_chunk t c) = outcome_append (decode_PAYLOAD t) c"
      using \<open>nextToken t = TOKENS_PAYLOAD\<close> d True a b
      by (simp add: decode_PAYLOAD_def decodePayload_def Let_def bt split: sum.splits)
    then show ?thesis ..
  next
    case False
    have
      "(t1 = t \<and> ?detect (append_chunk t c) = (False, append_chunk t c))
       \<or> (t1 = t\<lparr>readOffset := length (buffer t)\<rparr>
          \<and> ?detect (append_chunk t c) = ?detect (append_chunk t1 c))"
      using d False detectVarint_pending_append(1) [OF assms, of t1]
        detectVarint_pending_append(2) [OF assms, of t1 c]
        detectPayload_pending_append [OF assms, of t1 c]
      by (auto split: if_splits)
    then show ?thesis
    proof
      assume "t1 = t \<and> ?detect (append_chunk t c) = (False, append_chunk t c)"
      with d False \<open>nextToken t = TOKENS_PAYLOAD\<close>
      have "decode_PAYLOAD (append_chunk t c) = outcome_append (decode_PAYLOAD t) c"
        by (simp add: decode_PAYLOAD_def)
      then show ?thesis ..
    next
      assume p: "t1 = t\<lparr>readOffset := length (buffer t)\<rparr>
          \<and> ?detect (append_chunk t c) = ?detect (append_chunk t1 c)"
      with d False \<open>nextToken t = TOKENS_PAYLOAD\<close>
      have "decode_PAYLOAD t = Inr (t\<lparr>readOffset := length (buffer t)\<rparr>)"
        by (simp add: decode_PAYLOAD_def)
      moreover from p \<open>nextToken t = TOKENS_PAYLOAD\<close>
      have "decode_PAYLOAD (append_chunk t c)
              = decode_PAYLOAD (append_chunk (t\<lparr>readOffset := length (buffer t)\<rparr>) c)"
        by (simp add: decode_PAYLOAD_def)
      ultimately show ?thesis using \<open>nextToken t = TOKENS_PAYLOAD\<close> by simp
    qed
  qed
qed

lemma decode_LENGTH_append:
  assumes "readOffset t \<le> length (buffer t)"
  shows "decode_LENGTH (append_chunk t c) = append_chunk (decode_LENGTH t) c
       \<or> (nextToken t = TOKENS_LENGTH
          \<and> decode_LENGTH t = t\<lparr>readOffset := length (buffer t)\<rparr>
          \<and> decode_LENGTH (append_chunk t c)
              = decode_LENGTH (append_chunk (t\<lparr>readOffset := length (buffer t)\<rparr>) c))"
proof (cases "nextToken t = TOKENS_LENGTH")
  case False
  then show ?thesis by (simp add: decode_LENGTH_def)
next
  case True
  obtain found t1 where d: "detectVarint t = (found, t1)" by (cases "detectVarint t")
  show ?thesis
  proof (cases found)
    case True
    from d True have dt: "detectVarint t = (True, t1)" by simp
    note a = detectVarint_found_append(1) [OF assms dt, of c]
      and b = detectVarint_found_append(2) [OF assms dt]
      and e' = detectVarint_found_append(3) [OF assms dt]
    have bt: "buffer t1 = buffer t" by (subst e') simp
    have "decode_LENGTH (append_chunk t c) = append_chunk (decode_LENGTH t) c"
      using \<open>nextToken t = TOKENS_LENGTH\<close> dt a b
      by (simp add: decode_LENGTH_def Let_def bt)
    then show ?thesis ..
  next
    case False
    from d False have dt: "detectVarint t = (False, t1)" by simp
    note t1 = detectVarint_pending_append(1) [OF assms dt]
      and dd = detectVarint_pending_append(2) [OF assms dt, of c]
    have nt1: "nextToken t1 = nextToken t" by (subst t1) simp
    have "decode_LENGTH t = t\<lparr>readOffset := length (buffer t)\<rparr>"
      using dt \<open>nextToken t = TOKENS_LENGTH\<close> by (simp add: decode_LENGTH_def t1 [symmetric] nt1)
    moreover have "decode_LENGTH (append_chunk t c)
              = decode_LENGTH (append_chunk (t\<lparr>readOffset := length (buffer t)\<rparr>) c)"
      using dd \<open>nextToken t = TOKENS_LENGTH\<close> by (simp add: decode_LENGTH_def t1 [symmetric] nt1)
    ultimately show ?thesis using \<open>nextToken t = TOKENS_LENGTH\<close> by simp
  qed
qed

lemma decode_TAG_append:
  assumes "readOffset t \<le> length (buffer t)"
  shows "decode_TAG (append_chunk t c) = outcome_append (decode_TAG t) c
       \<or> (nextToken t = TOKENS_TAG
          \<and> decode_TAG t = Inr (t\<lparr>readOffset := length (buffer t)\<rparr>)
          \<and> decode_TAG (append_chunk t c)
              = decode_TAG (append_chunk (t\<lparr>readOffset := length (buffer t)\<rparr>) c))"
proof (cases "nextToken t = TOKENS_TAG")
  case False
  then show ?thesis by (simp add: decode_TAG_def)
next
  case True
  obtain found t1 where d: "detectVarint t = (found, t1)" by (cases "detectVarint t")
  show ?thesis
  proof (cases found)
    case True
    from d True have dt: "detectVarint t = (True, t1)" by simp
    note a = detectVarint_found_append(1) [OF assms dt, of c]
      and b = detectVarint_found_append(2) [OF assms dt]
      and e' = detectVarint_found_append(3) [OF assms dt]
    have bt: "buffer t1 = buffer t" by (subst e') simp
    have "decode_TAG (append_chunk t c) = outcome_append (decode_TAG t) c"
      using \<open>nextToken t = TOKENS_TAG\<close> dt a b
      by (simp add: decode_TAG_def Let_def bt split: option.splits)
    then show ?thesis ..
  next
    case False
    from d False have dt: "detectVarint t = (False, t1)" by simp
    note t1 = detectVarint_pending_append(1) [OF assms dt]
      and dd = detectVarint_pending_append(2) [OF assms dt, of c]
    have nt1: "nextToken t1 = nextToken t" by (subst t1) simp
    have "decode_TAG t = Inr (t\<lparr>readOffset := length (buffer t)\<rparr>)"
      using dt \<open>nextToken t = TOKENS_TAG\<close> by (simp add: decode_TAG_def t1 [symmetric] nt1)
    moreover have "decode_TAG (append_chunk t c)
              = decode_TAG (append_chunk (t\<lparr>readOffset := length (buffer t)\<rparr>) c)"
      using dd \<open>nextToken t = TOKENS_TAG\<close> by (simp add: decode_TAG_def t1 [symmetric] nt1)
    ultimately show ?thesis using \<open>nextToken t = TOKENS_TAG\<close> by simp
  qed
qed

text \<open>The cursor stays within the buffer.\<close>

lemma detectVarint_in_buffer:
  "readOffset t \<le> length (buffer t) \<Longrightarrow> detectVarint t = (found, t1) \<Longrightarrow>
   readOffset t1 \<le> length (buffer t) \<and> buffer t1 = buffer t"
  using length_takeWhile_le [of "\<lambda>b. drop_bit 7 b \<noteq> 0" "drop (readOffset t) (buffer t)"]
  by (auto simp: detectVarint_def detectVarint_loop_scan Let_def split: if_splits)

lemma detectPayload_in_buffer:
  "readOffset t \<le> length (buffer t) \<Longrightarrow> detectPayload t = (found, t1) \<Longrightarrow>
   readOffset t1 \<le> length (buffer t) \<and> buffer t1 = buffer t"
  by (auto simp: detectPayload_def detectPayload_loop_eq Let_def split: if_splits)

lemma decode_TAG_in_buffer:
  assumes "readOffset t \<le> length (buffer t)"
  shows "case decode_TAG t of Inl (e, t') \<Rightarrow> readOffset t' \<le> length (buffer t')
         | Inr t' \<Rightarrow> readOffset t' \<le> length (buffer t')"
proof (cases "detectVarint t")
  case (Pair found t1)
  note ib = detectVarint_in_buffer [OF assms Pair]
  show ?thesis
  proof (cases "nextToken t = TOKENS_TAG \<and> found")
    case True
    with ib Pair show ?thesis
      by (simp add: decode_TAG_def Let_def split: option.splits)
  next
    case False
    with ib assms Pair show ?thesis
      by (cases found) (simp_all add: decode_TAG_def)
  qed
qed

lemma decode_LENGTH_in_buffer:
  assumes "readOffset t \<le> length (buffer t)"
  shows "readOffset (decode_LENGTH t) \<le> length (buffer (decode_LENGTH t))"
proof (cases "detectVarint t")
  case (Pair found t1)
  from detectVarint_in_buffer [OF assms Pair] assms Pair show ?thesis
    by (cases found) (simp_all add: decode_LENGTH_def Let_def)
qed

lemma decode_PAYLOAD_in_buffer:
  assumes "readOffset t \<le> length (buffer t)"
  shows "case decode_PAYLOAD t of Inl (e, t') \<Rightarrow> readOffset t' \<le> length (buffer t')
         | Inr t' \<Rightarrow> readOffset t' \<le> length (buffer t')"
proof -
  let ?detect = "\<lambda>s. if wireType (repeatedField s) = VARINT then detectVarint s else detectPayload s"
  obtain found t1 where d: "?detect t = (found, t1)" by (cases "?detect t")
  have ib: "readOffset t1 \<le> length (buffer t) \<and> buffer t1 = buffer t"
    using d detectVarint_in_buffer [OF assms, of found t1]
      detectPayload_in_buffer [OF assms, of found t1]
    by (simp split: if_splits)
  show ?thesis
  proof (cases "nextToken t = TOKENS_PAYLOAD \<and> found")
    case True
    with ib d show ?thesis
      by (simp add: decode_PAYLOAD_def Let_def split: sum.splits)
  next
    case False
    with ib assms d show ?thesis
      by (cases found) (simp_all add: decode_PAYLOAD_def)
  qed
qed

lemma decode_in_buffer:
  assumes "readOffset t \<le> length (buffer t)"
  shows "case decode t of Inl (e, t') \<Rightarrow> readOffset t' \<le> length (buffer t')
         | Inr t' \<Rightarrow> readOffset t' \<le> length (buffer t')"
proof (cases "decode_TAG t")
  case (Inl x)
  with decode_TAG_in_buffer [OF assms] show ?thesis by (simp add: decode_def)
next
  case (Inr t1)
  with decode_TAG_in_buffer [OF assms] have "readOffset t1 \<le> length (buffer t1)" by simp
  then have "readOffset (decode_LENGTH t1) \<le> length (buffer (decode_LENGTH t1))"
    by (rule decode_LENGTH_in_buffer)
  from decode_PAYLOAD_in_buffer [OF this] Inr show ?thesis by (simp add: decode_def)
qed

lemma decode_TAG_skip: "nextToken s \<noteq> TOKENS_TAG \<Longrightarrow> decode_TAG s = Inr s"
  by (simp add: decode_TAG_def)

lemma decode_LENGTH_skip: "nextToken s \<noteq> TOKENS_LENGTH \<Longrightarrow> decode_LENGTH s = s"
  by (simp add: decode_LENGTH_def)

lemma decode_PAYLOAD_skip: "nextToken s \<noteq> TOKENS_PAYLOAD \<Longrightarrow> decode_PAYLOAD s = Inr s"
  by (simp add: decode_PAYLOAD_def)

lemma decode_append:
  assumes "readOffset t \<le> length (buffer t)"
  shows "decode (append_chunk t c) = outcome_append (decode t) c
       \<or> (\<exists>t'. decode t = Inr t' \<and> readOffset t' = length (buffer t')
              \<and> decode (append_chunk t c) = decode (append_chunk t' c))"
proof -
  let ?end = "\<lambda>s::'a stream. s\<lparr>readOffset := length (buffer s)\<rparr>"
  from decode_TAG_append [OF assms, of c] show ?thesis
  proof
    assume p: "nextToken t = TOKENS_TAG \<and> decode_TAG t = Inr (?end t)
               \<and> decode_TAG (append_chunk t c) = decode_TAG (append_chunk (?end t) c)"
    then have "decode t = Inr (?end t)"
      by (simp add: decode_def decode_LENGTH_skip decode_PAYLOAD_skip)
    moreover from p have "decode (append_chunk t c) = decode (append_chunk (?end t) c)"
      by (simp add: decode_def)
    ultimately show ?thesis by simp
  next
    assume cT: "decode_TAG (append_chunk t c) = outcome_append (decode_TAG t) c"
    show ?thesis
    proof (cases "decode_TAG t")
      case (Inl x)
      with cT have "decode (append_chunk t c) = outcome_append (decode t) c"
        by (cases x) (simp add: decode_def)
      then show ?thesis ..
    next
      case (Inr t1)
      with decode_TAG_in_buffer [OF assms] have ib1: "readOffset t1 \<le> length (buffer t1)" by simp
      from Inr cT have dt: "decode t = decode_PAYLOAD (decode_LENGTH t1)"
        and dtc: "decode (append_chunk t c) = decode_PAYLOAD (decode_LENGTH (append_chunk t1 c))"
        by (simp_all add: decode_def)
      from decode_LENGTH_append [OF ib1, of c] show ?thesis
      proof
        assume p: "nextToken t1 = TOKENS_LENGTH \<and> decode_LENGTH t1 = ?end t1
               \<and> decode_LENGTH (append_chunk t1 c) = decode_LENGTH (append_chunk (?end t1) c)"
        then have "decode t = Inr (?end t1)"
          by (simp add: dt decode_PAYLOAD_skip)
        moreover from p have "decode (append_chunk (?end t1) c)
            = decode_PAYLOAD (decode_LENGTH (append_chunk (?end t1) c))"
          by (simp add: decode_def decode_TAG_skip)
        with p have "decode (append_chunk t c) = decode (append_chunk (?end t1) c)"
          by (simp add: dtc)
        ultimately show ?thesis by simp
      next
        assume cL: "decode_LENGTH (append_chunk t1 c) = append_chunk (decode_LENGTH t1) c"
        let ?t2 = "decode_LENGTH t1"
        have ib2: "readOffset ?t2 \<le> length (buffer ?t2)"
          using ib1 by (rule decode_LENGTH_in_buffer)
        from decode_PAYLOAD_append [OF ib2, of c] show ?thesis
        proof
          assume "decode_PAYLOAD (append_chunk ?t2 c) = outcome_append (decode_PAYLOAD ?t2) c"
          then have "decode (append_chunk t c) = outcome_append (decode t) c"
            by (simp add: dt dtc cL)
          then show ?thesis ..
        next
          assume p: "nextToken ?t2 = TOKENS_PAYLOAD \<and> decode_PAYLOAD ?t2 = Inr (?end ?t2)
               \<and> decode_PAYLOAD (append_chunk ?t2 c) = decode_PAYLOAD (append_chunk (?end ?t2) c)"
          then have "decode t = Inr (?end ?t2)"
            by (simp add: dt)
          moreover from p have "decode (append_chunk (?end ?t2) c)
              = decode_PAYLOAD (append_chunk (?end ?t2) c)"
            by (simp add: decode_def decode_TAG_skip decode_LENGTH_skip)
          with p have "decode (append_chunk t c) = decode (append_chunk (?end ?t2) c)"
            by (simp add: dtc cL)
          ultimately show ?thesis by simp
        qed
      qed
    qed
  qed
qed

lemma decode_while_step:
  "readOffset s < length (buffer s) \<Longrightarrow>
   decode_while s = (case decode s of Inl thrown \<Rightarrow> Some (Inl thrown) | Inr s' \<Rightarrow> decode_while s')"
  by (subst decode_while.simps) simp

lemma decode_while_append_forward:
  assumes "decode_while t = Some r0" and "readOffset t \<le> length (buffer t)" and "c \<noteq> []"
  shows "decode_while (append_chunk t c) = resume c r0"
proof -
  have "readOffset t \<le> length (buffer t) \<longrightarrow> decode_while (append_chunk t c) = resume c r0"
  proof (rule decode_while.raw_induct
      [where P = "\<lambda>t r0. readOffset t \<le> length (buffer t)
                    \<longrightarrow> decode_while (append_chunk t c) = resume c r0", OF _ assms(1)])
    fix dw :: "'a stream \<Rightarrow> 'a outcome option" and t r0
    assume IH: "\<And>x y. dw x = Some y \<Longrightarrow> readOffset x \<le> length (buffer x)
                    \<longrightarrow> decode_while (append_chunk x c) = resume c y"
      and step: "(if readOffset t < length (buffer t)
                  then case decode t of Inl thrown \<Rightarrow> Some (Inl thrown) | Inr s' \<Rightarrow> dw s'
                  else Some (Inr t)) = Some r0"
    show "readOffset t \<le> length (buffer t) \<longrightarrow> decode_while (append_chunk t c) = resume c r0"
    proof
      assume ib: "readOffset t \<le> length (buffer t)"
      show "decode_while (append_chunk t c) = resume c r0"
      proof (cases "readOffset t < length (buffer t)")
        case False
        with step have "r0 = Inr t" by simp
        then show ?thesis by (simp add: resume_def)
      next
        case True
        then have lt: "readOffset (append_chunk t c) < length (buffer (append_chunk t c))" by simp
        note unf = decode_while_step [OF lt]
        show ?thesis
        proof (cases "decode t")
          case (Inl x)
          obtain e t' where x: "x = (e, t')" by (cases x)
          from step True Inl have r0: "r0 = Inl x" by simp
          from decode_append [OF ib, of c] Inl have "decode (append_chunk t c) = outcome_append (Inl x) c"
            by auto
          then show ?thesis by (simp add: unf r0 x resume_def)
        next
          case (Inr t')
          from step True Inr have "dw t' = Some r0" by simp
          moreover from decode_in_buffer [OF ib] Inr have ib': "readOffset t' \<le> length (buffer t')"
            by simp
          ultimately have rec: "decode_while (append_chunk t' c) = resume c r0"
            using IH by blast
          from decode_append [OF ib, of c] show ?thesis
          proof
            assume "decode (append_chunk t c) = outcome_append (decode t) c"
            then show ?thesis by (simp add: unf Inr rec)
          next
            assume "\<exists>t'. decode t = Inr t' \<and> readOffset t' = length (buffer t')
                      \<and> decode (append_chunk t c) = decode (append_chunk t' c)"
            with Inr have q: "readOffset t' = length (buffer t')"
              and d: "decode (append_chunk t c) = decode (append_chunk t' c)" by auto
            from q \<open>c \<noteq> []\<close>
            have "readOffset (append_chunk t' c) < length (buffer (append_chunk t' c))" by simp
            from decode_while_step [OF this] have "decode_while (append_chunk t' c)
                = decode_while (append_chunk t c)"
              by (simp add: unf d)
            with rec show ?thesis by simp
          qed
        qed
      qed
    qed
  qed
  with assms(2) show ?thesis by blast
qed

lemma decode_while_append_backward:
  assumes "decode_while (append_chunk t c) = Some r" and "readOffset t \<le> length (buffer t)"
    and "c \<noteq> []"
  shows "\<exists>r0. decode_while t = Some r0 \<and> resume c r0 = Some r"
proof -
  let ?Q = "\<lambda>x r. \<forall>t. x = append_chunk t c \<longrightarrow> readOffset t \<le> length (buffer t)
                   \<longrightarrow> (\<exists>r0. decode_while t = Some r0 \<and> resume c r0 = Some r)"
  have "decode_while (append_chunk t c) = Some r \<and> ?Q (append_chunk t c) r"
  proof (rule decode_while.raw_induct
      [where P = "\<lambda>x r. decode_while x = Some r \<and> ?Q x r", OF _ assms(1)])
    fix dw :: "'a stream \<Rightarrow> 'a outcome option" and x r
    assume IH: "\<And>y r'. dw y = Some r' \<Longrightarrow> decode_while y = Some r' \<and> ?Q y r'"
      and step: "(if readOffset x < length (buffer x)
                  then case decode x of Inl thrown \<Rightarrow> Some (Inl thrown) | Inr s' \<Rightarrow> dw s'
                  else Some (Inr x)) = Some r"
    have below: "\<And>y r'. dw y = Some r' \<Longrightarrow> decode_while y = Some r'" using IH by blast
    have total: "decode_while x = Some r"
    proof (cases "readOffset x < length (buffer x)")
      case False
      with step show ?thesis by (simp add: decode_while_done)
    next
      case True
      with step below show ?thesis
        by (subst decode_while.simps) (auto split: sum.splits)
    qed
    have "?Q x r"
    proof (intro allI impI)
      fix t
      assume x: "x = append_chunk t c" and ib: "readOffset t \<le> length (buffer t)"
      show "\<exists>r0. decode_while t = Some r0 \<and> resume c r0 = Some r"
      proof (cases "readOffset t < length (buffer t)")
        case False
        then have "decode_while t = Some (Inr t)" by (simp add: decode_while_done)
        moreover have "resume c (Inr t) = Some r" using total x by (simp add: resume_def)
        ultimately show ?thesis by blast
      next
        case True
        then have lt: "readOffset x < length (buffer x)" using x by simp
        with step have st: "(case decode x of Inl thrown \<Rightarrow> Some (Inl thrown) | Inr s' \<Rightarrow> dw s') = Some r"
          by simp
        note unf = decode_while_step [OF True]
        from decode_append [OF ib, of c] show ?thesis
        proof
          assume a: "decode (append_chunk t c) = outcome_append (decode t) c"
          show ?thesis
          proof (cases "decode t")
            case (Inl y)
            obtain e t' where y: "y = (e, t')" by (cases y)
            from st a Inl y x have "r = Inl (e, append_chunk t' c)" by simp
            then show ?thesis by (simp add: unf Inl y resume_def)
          next
            case (Inr t')
            from st a Inr x have "dw (append_chunk t' c) = Some r" by simp
            moreover from decode_in_buffer [OF ib] Inr have "readOffset t' \<le> length (buffer t')"
              by simp
            ultimately have "\<exists>r0. decode_while t' = Some r0 \<and> resume c r0 = Some r"
              using IH by blast
            then show ?thesis by (simp add: unf Inr)
          qed
        next
          assume "\<exists>t'. decode t = Inr t' \<and> readOffset t' = length (buffer t')
                      \<and> decode (append_chunk t c) = decode (append_chunk t' c)"
          then obtain t' where dt: "decode t = Inr t'" and q: "readOffset t' = length (buffer t')"
            and d: "decode (append_chunk t c) = decode (append_chunk t' c)" by blast
          from q have "decode_while t' = Some (Inr t')" by (simp add: decode_while_done)
          then have lt': "decode_while t = Some (Inr t')" by (simp add: unf dt)
          from q \<open>c \<noteq> []\<close>
          have "readOffset (append_chunk t' c) < length (buffer (append_chunk t' c))" by simp
          from decode_while_step [OF this] d x
          have "decode_while (append_chunk t' c)
                  = (case decode x of Inl thrown \<Rightarrow> Some (Inl thrown) | Inr s' \<Rightarrow> decode_while s')"
            by simp
          also have "\<dots> = Some r"
            using st below by (auto split: sum.splits)
          finally have "resume c (Inr t') = Some r" by (simp add: resume_def)
          with lt' show ?thesis by blast
        qed
      qed
    qed
    with total show "decode_while x = Some r \<and> ?Q x r" ..
  qed
  with assms(2) show ?thesis by blast
qed

lemma decode_while_append:
  assumes "readOffset t \<le> length (buffer t)"
  shows "decode_while (append_chunk t c)
           = (case decode_while t of None \<Rightarrow> None | Some r0 \<Rightarrow> resume c r0)"
proof (cases "c = []")
  case True
  show ?thesis
  proof (cases "decode_while t")
    case None
    with True show ?thesis by simp
  next
    case (Some r0)
    show ?thesis
    proof (cases r0)
      case (Inl x)
      with Some True show ?thesis by (cases x) (simp add: resume_def)
    next
      case (Inr t')
      with Some have "length (buffer t') \<le> readOffset t'" by (simp add: decode_while_exit)
      then have "decode_while t' = Some (Inr t')" by (rule decode_while_done)
      with Some Inr True show ?thesis by (simp add: resume_def)
    qed
  qed
next
  case False
  show ?thesis
  proof (cases "decode_while t")
    case (Some r0)
    with decode_while_append_forward [OF Some assms False] show ?thesis by simp
  next
    case None
    show ?thesis
    proof (cases "decode_while (append_chunk t c)")
      case None
      with \<open>decode_while t = None\<close> show ?thesis by simp
    next
      case (Some r)
      from decode_while_append_backward [OF Some assms False] \<open>decode_while t = None\<close>
      show ?thesis by simp
    qed
  qed
qed

lemma decode_while_in_buffer:
  assumes "decode_while s = Some r" and "readOffset s \<le> length (buffer s)"
  shows "case r of Inl (e, t) \<Rightarrow> readOffset t \<le> length (buffer t)
         | Inr t \<Rightarrow> readOffset t \<le> length (buffer t)"
proof -
  let ?ok = "\<lambda>r::'a outcome. case r of Inl (e, t) \<Rightarrow> readOffset t \<le> length (buffer t)
         | Inr t \<Rightarrow> readOffset t \<le> length (buffer t)"
  have "readOffset s \<le> length (buffer s) \<longrightarrow> ?ok r"
  proof (rule decode_while.raw_induct
      [where P = "\<lambda>s r. readOffset s \<le> length (buffer s) \<longrightarrow> ?ok r", OF _ assms(1)])
    fix dw :: "'a stream \<Rightarrow> 'a outcome option" and s r
    assume IH: "\<And>x y. dw x = Some y \<Longrightarrow> readOffset x \<le> length (buffer x) \<longrightarrow> ?ok y"
      and step: "(if readOffset s < length (buffer s)
                  then case decode s of Inl thrown \<Rightarrow> Some (Inl thrown) | Inr s' \<Rightarrow> dw s'
                  else Some (Inr s)) = Some r"
    show "readOffset s \<le> length (buffer s) \<longrightarrow> ?ok r"
    proof
      assume ib: "readOffset s \<le> length (buffer s)"
      note d = decode_in_buffer [OF ib]
      show "?ok r"
      proof (cases "readOffset s < length (buffer s)")
        case False
        with step ib show ?thesis by auto
      next
        case True
        show ?thesis
        proof (cases "decode s")
          case (Inl x)
          with step True d show ?thesis by auto
        next
          case (Inr s')
          with step True have "dw s' = Some r" by simp
          moreover from d Inr have "readOffset s' \<le> length (buffer s')" by simp
          ultimately show ?thesis using IH by blast
        qed
      qed
    qed
  qed
  with assms(2) show ?thesis by blast
qed

lemma decode_while_append_chunk: "decode_while (append_chunk s c) = transform s c"
  by (simp add: transform_def append_chunk_def)

lemma transform_append:
  assumes "readOffset s \<le> length (buffer s)"
  shows "transform s (c1 @ c2)
           = (case transform s c1 of None \<Rightarrow> None | Some r0 \<Rightarrow> resume c2 r0)"
proof -
  have "readOffset (append_chunk s c1) \<le> length (buffer (append_chunk s c1))"
    using assms by simp
  from decode_while_append [OF this, of c2] show ?thesis
    by (simp add: transform_def append_chunk_def)
qed

lemma transform_ready:
  assumes "transform s c = Some (Inr s')" and "readOffset s \<le> length (buffer s)"
  shows "readOffset s' = length (buffer s')"
proof -
  have d: "decode_while (append_chunk s c) = Some (Inr s')"
    using assms(1) by (simp add: transform_def append_chunk_def)
  from decode_while_exit [OF d] have "length (buffer s') \<le> readOffset s'" .
  moreover from decode_while_in_buffer [OF d] assms(2)
  have "readOffset s' \<le> length (buffer s')" by simp
  ultimately show ?thesis by simp
qed

lemma write_chunks_concat:
  assumes "readOffset s = length (buffer s)"
  shows "case write_chunks s chunks of
           None \<Rightarrow> transform s (concat chunks) = None
         | Some (Inr s') \<Rightarrow> transform s (concat chunks) = Some (Inr s')
         | Some (Inl (e, t)) \<Rightarrow>
             (\<exists>rest. transform s (concat chunks) = Some (Inl (e, append_chunk t rest)))"
  using assms
proof (induction chunks arbitrary: s)
  case Nil
  then show ?case by (simp add: transform_def decode_while_done)
next
  case (Cons c cs)
  from Cons.prems have ib: "readOffset s \<le> length (buffer s)" by simp
  note ta = transform_append [OF ib, of c "concat cs"]
  show ?case
  proof (cases "transform s c")
    case None
    then show ?thesis by (simp add: ta)
  next
    case (Some r0)
    show ?thesis
    proof (cases r0)
      case (Inl x)
      obtain e t where x: "x = (e, t)" by (cases x)
      have "transform s (concat (c # cs)) = Some (Inl (e, append_chunk t (concat cs)))"
        using Some Inl x by (simp add: ta resume_def)
      then show ?thesis using Some Inl x by auto
    next
      case (Inr s')
      with Some have "readOffset s' = length (buffer s')"
        using transform_ready [OF _ ib] by simp
      note IH = Cons.IH [OF this]
      have "transform s (concat (c # cs)) = transform s' (concat cs)"
        using Some Inr by (simp add: ta resume_def decode_while_append_chunk)
      with IH Some Inr show ?thesis
        by (simp split: option.splits sum.splits prod.splits)
    qed
  qed
qed

text \<open>
  Claim C2.  From a stream that has consumed all it was given (a new stream, or one whose
  last \<open>_transform\<close> returned), writing a list of chunks one at a time and writing their
  concatenation as a single chunk have the same outcome: both never return, or both
  return with the same final state, or both throw the same error after pushing the same
  entries.  The list is arbitrary, so it covers 1-byte and empty chunks.
\<close>

theorem chunk_boundaries_do_not_matter:
  assumes "readOffset s = length (buffer s)"
  shows "map_option observed (write_chunks s chunks)
           = map_option observed (write_chunks s [concat chunks])
         \<and> (write_chunks s chunks = Some (Inr s')
              \<longleftrightarrow> write_chunks s [concat chunks] = Some (Inr s'))"
proof -
  have one: "write_chunks s [concat chunks] = transform s (concat chunks)"
    by (simp split: option.splits sum.splits)
  from write_chunks_concat [OF assms, of chunks] show ?thesis
    unfolding one
    by (auto simp: observed_def split: option.splits sum.splits prod.splits)
qed

theorem chunk_boundaries_do_not_matter_witness:
  "map_option observed
     (write_chunks (stream_for ''int32'' VARINT True) [[0x0A], [0x02, 0x01], [], [0x7F]])
   = Some (None, [Decoded (Number 1), Decoded (Number 127)])
   \<and> map_option observed
     (write_chunks (stream_for ''int32'' VARINT True) [[0x0A, 0x02, 0x01, 0x7F]])
   = Some (None, [Decoded (Number 1), Decoded (Number 127)])"
  using chunk_boundaries_do_not_matter
          [of "stream_for ''int32'' VARINT True" "[[0x0A], [0x02, 0x01], [], [0x7F]]"]
  by (simp add: run_simps stream_for_def getPayloadSizeInBytes_def observed_def)

section \<open>Round trip\<close>


















lemma idle_stream: "buffer s = [] \<Longrightarrow> readOffset s = 0 \<Longrightarrow> s\<lparr>buffer := [], readOffset := 0\<rparr> = s"
  by (cases s) simp









lemma write_chunks_one:
  "transform s c = Some (Inr s') \<Longrightarrow> write_chunks s [c] = Some (Inr s')"
  by simp











text \<open>The value decoder of the reference reader keeps the sign: \<open>int32\<close> reads the 10-byte
  two's-complement varint, \<open>sint32\<close> undoes the zig-zag.\<close>

lemma signed_values:
  "scalarDecoder pbjs_reader ''int32'' [0xFE, 0xFF, 0xFF, 0xFF, 0xFF, 0xFF, 0xFF, 0xFF, 0xFF, 0x01]
     = Inr (Decoded (Number (- 2)))"
  "scalarDecoder pbjs_reader ''sint32'' [0x03] = Inr (Decoded (Number (- 2)))"
  "scalarDecoder pbjs_reader ''sint32'' [0x04] = Inr (Decoded (Number 2))"
  by (simp_all add: scalarDecoder_def pbjs_reader_def read_varint_def signed_of_def zigzag_def)



lemma constructed_bytes:
  "RepeatedFieldStream pbjs_reader (single_field_root ''bytes'' None) ''M''
     = Inr (stream_for ''bytes'' LEN False)"
  by (simp add: construct_simps)


end
